theory Spec2Isabelle
  imports Complex_Main "HOL-Library.AList" "HOL-Library.Char_ord" "HOL-Library.List_Lexorder"
begin

section \<open>JavaScript numbers\<close>

text \<open>
  The numbers that carry time (\<open>deltaTime\<close>, \<open>time\<close>, \<open>fixedTime\<close>, \<open>accumulator\<close>,
  \<open>fixedTimestep\<close>) are IEEE 754 binary64 values: a finite value, given by the rational
  it denotes (\<open>Finite 0\<close> is \<open>+0\<close>), negative zero, the two infinities, or NaN.
  Every arithmetic result is the exact result rounded to the nearest representable value,
  ties to the even significand: 53 significant bits, exponents from \<open>-1022\<close> to
  \<open>1023\<close>, gradual underflow below, infinity from \<open>2^1024 - 2^970\<close> on.
\<close>

datatype number = Finite rat | MinusZero | PlusInfinity | MinusInfinity | NotANumber

definition pow2 :: "int \<Rightarrow> rat" where
  "pow2 e = (if e \<ge> 0 then 2 ^ nat e else 1 / 2 ^ nat (- e))"

text \<open>The binary exponent \<open>\<lfloor>log\<^sub>2 a\<rfloor>\<close> of a positive \<open>a\<close>, kept within the
  exponent range (below it, values are spaced like the smallest normal ones).\<close>

primrec expUp :: "nat \<Rightarrow> rat \<Rightarrow> int" where
  "expUp 0 a = 0"
| "expUp (Suc n) a = (if a \<ge> 2 then 1 + expUp n (a / 2) else 0)"

primrec expDown :: "nat \<Rightarrow> rat \<Rightarrow> int" where
  "expDown 0 a = 0"
| "expDown (Suc n) a = (if a < 1 then expDown n (a * 2) - 1 else 0)"

definition exponent :: "rat \<Rightarrow> int" where
  "exponent a = (if a \<ge> 1 then expUp 1023 a else expDown 1022 a)"

text \<open>Rounding to the nearest integer, a tie to the even one.\<close>

definition tieEven :: "int \<Rightarrow> rat \<Rightarrow> int" where
  "tieEven n r = (if r < 1 / 2 then n else if r > 1 / 2 then n + 1 else if even n then n else n + 1)"

definition roundEven :: "rat \<Rightarrow> int" where
  "roundEven y = tieEven \<lfloor>y\<rfloor> (y - of_int \<lfloor>y\<rfloor>)"

text \<open>The value with significand \<open>m\<close> (in units of the last place at exponent \<open>e\<close>)
  and the given sign.\<close>

definition assemble :: "bool \<Rightarrow> int \<Rightarrow> int \<Rightarrow> number" where
  "assemble positive e m =
     (if e = 1023 \<and> m \<ge> 2 ^ 53 then (if positive then PlusInfinity else MinusInfinity)
      else if m = 0 then (if positive then Finite 0 else MinusZero)
      else Finite ((if positive then 1 else - 1) * of_int m * pow2 (e - 52)))"

definition roundAt :: "rat \<Rightarrow> int \<Rightarrow> number" where
  "roundAt x e = assemble (x > 0) e (roundEven (\<bar>x\<bar> / pow2 (e - 52)))"

text \<open>The number that an exact result \<open>x\<close> is rounded to; so also the value of a decimal
  literal and of a quotient of two finite numbers.\<close>

definition roundNumber :: "rat \<Rightarrow> number" where
  "roundNumber x = (if x = 0 then Finite 0 else roundAt x (exponent \<bar>x\<bar>))"

text \<open>\<open>x + y\<close>, \<open>-x\<close>, \<open>x - y\<close>, \<open>x <= y\<close> and \<open>x >= y\<close>.\<close>

fun numAdd :: "number \<Rightarrow> number \<Rightarrow> number" where
  "numAdd NotANumber y = NotANumber"
| "numAdd x NotANumber = NotANumber"
| "numAdd PlusInfinity MinusInfinity = NotANumber"
| "numAdd MinusInfinity PlusInfinity = NotANumber"
| "numAdd PlusInfinity y = PlusInfinity"
| "numAdd MinusInfinity y = MinusInfinity"
| "numAdd x PlusInfinity = PlusInfinity"
| "numAdd x MinusInfinity = MinusInfinity"
| "numAdd MinusZero y = y"
| "numAdd x MinusZero = x"
| "numAdd (Finite a) (Finite b) = roundNumber (a + b)"

fun numNeg :: "number \<Rightarrow> number" where
  "numNeg (Finite a) = (if a = 0 then MinusZero else Finite (- a))"
| "numNeg MinusZero = Finite 0"
| "numNeg PlusInfinity = MinusInfinity"
| "numNeg MinusInfinity = PlusInfinity"
| "numNeg NotANumber = NotANumber"

definition numSub :: "number \<Rightarrow> number \<Rightarrow> number" where
  "numSub x y = numAdd x (numNeg y)"

fun numLe :: "number \<Rightarrow> number \<Rightarrow> bool" where
  "numLe NotANumber y = False"
| "numLe x NotANumber = False"
| "numLe MinusInfinity y = True"
| "numLe x PlusInfinity = True"
| "numLe PlusInfinity y = False"
| "numLe x MinusInfinity = False"
| "numLe (Finite a) (Finite b) = (a \<le> b)"
| "numLe (Finite a) MinusZero = (a \<le> 0)"
| "numLe MinusZero (Finite b) = (0 \<le> b)"
| "numLe MinusZero MinusZero = True"

definition numGe :: "number \<Rightarrow> number \<Rightarrow> bool" where
  "numGe x y = numLe y x"

section \<open>System scheduler (src/core/system.ts, src/core/error.ts)\<close>

text \<open>
  Counters and priorities are integers; a \<open>Map\<close> is an association list in insertion
  order (\<open>AList.update\<close> overwrites in place or appends, as \<open>Map.set\<close> does), a
  \<open>Set\<close> a duplicate-free list in insertion order. A thrown value is a value of
  \<open>jserror\<close>: one constructor per \<open>throw\<close> of the source, \<open>UserError\<close> for what user
  code throws, and \<open>Nullish\<close> for a thrown \<open>null\<close> or \<open>undefined\<close>, the thrown
  values whose properties cannot be read.

  A system's function is user code. It is modelled by what the scheduler observes of it:
  given the context it either returns or throws. The context's \<open>world\<close> reference is
  left out, so a system body that calls back into the World is outside this model.
  An error handler is user code too: it returns a strategy or nothing
  (\<open>SystemErrorStrategy | void\<close>), or it throws.
  \<open>await\<close> is sequential execution; a rejected promise is a throw.
  Of a \<open>System\<close>, the \<open>name\<close>, the \<open>reactive\<close> flag with its effect and the
  worker-backed subclass play no part in ordering or dispatch and are left out.
\<close>

type_synonym SystemId = string
type_synonym EntityId = int
type_synonym ComponentId = string

datatype jserror =
    CircularDependency SystemId
  | SystemExists SystemId
  | EntityExists EntityId
  | EntityMissing EntityId
  | EmptyQuery
  | ComputedUndefined
  | TypeError
  | UserError string
  | Nullish

datatype SystemPhase = Init | FixedUpdate | Update | LateUpdate | Cleanup

datatype SystemErrorStrategy = DISABLE | IGNORE | RETRY

record SystemContext =
  deltaTime :: number
  ctxTime :: number
  phase :: SystemPhase

record SystemErrorContext =
  errSystemId :: SystemId
  error :: jserror
  errPhase :: SystemPhase
  errConsecutiveFailures :: nat

datatype fn_result = Returns | Throws jserror

type_synonym SystemFunction = "SystemContext \<Rightarrow> fn_result"
datatype handler_result = HandlerReturns "SystemErrorStrategy option" | HandlerThrows jserror

type_synonym SystemErrorHandler = "SystemErrorContext \<Rightarrow> handler_result"

record System =
  sysId :: SystemId
  phases :: "SystemPhase list"
  priority :: int
  runBefore :: "SystemId list"
  runAfter :: "SystemId list"
  onError :: "SystemErrorHandler option"
  enabled :: bool
  fn :: SystemFunction
  consecutiveFailures :: nat

text \<open>What a dispatch leaves behind for an observer: which phases were executed and
  which system functions were invoked, each with the context it received.\<close>

datatype event = PhaseExecuted SystemPhase SystemContext | SystemInvoked SystemId SystemContext

definition hasPhase :: "System \<Rightarrow> SystemPhase \<Rightarrow> bool" where
  "hasPhase s p = (p \<in> set (phases s))"

text \<open>\<open>System.run\<close>: the updated system, the events, and the error it throws (if any):
  the function's error when the system has no handler of its own, or what its own
  handler throws, the counter being incremented already and \<open>enabled\<close> untouched.\<close>

definition run :: "System \<Rightarrow> SystemContext \<Rightarrow> System \<times> event list \<times> jserror option" where
  "run s ctx =
     (if \<not> enabled s then (s, [], None)
      else case fn s ctx of
        Returns \<Rightarrow> (s\<lparr>consecutiveFailures := 0\<rparr>, [SystemInvoked (sysId s) ctx], None)
      | Throws e \<Rightarrow>
          (let s1 = s\<lparr>consecutiveFailures := consecutiveFailures s + 1\<rparr>;
               errorCtx = \<lparr>errSystemId = sysId s1, error = e, errPhase = phase ctx,
                           errConsecutiveFailures = consecutiveFailures s1\<rparr>
           in case onError s1 of
                Some h \<Rightarrow>
                  (case h errorCtx of
                     HandlerThrows thrown \<Rightarrow> (s1, [SystemInvoked (sysId s) ctx], Some thrown)
                   | HandlerReturns result \<Rightarrow>
                       (let strategy = (case result of Some r \<Rightarrow> r | None \<Rightarrow> IGNORE)
                        in (if strategy = DISABLE then s1\<lparr>enabled := False\<rparr> else s1,
                            [SystemInvoked (sysId s) ctx], None)))
              | None \<Rightarrow> (s1, [SystemInvoked (sysId s) ctx], Some e)))"

subsection \<open>Execution order\<close>

text \<open>
  \<open>topologicalSort\<close>. The closure \<open>visit\<close> mutates three locals: \<open>sorted\<close> and
  \<open>visited\<close> are threaded through as a pair; \<open>visiting\<close> is restored by every
  returning path of \<open>visit\<close> (it removes exactly the id it added), so it is the
  call-stack argument here. A throw aborts the whole sort.
\<close>

type_synonym sortState = "System list \<times> SystemId list"

text \<open>Two facts for the termination of \<open>visit\<close>.\<close>

lemma card_visit_less:
  assumes "x \<notin> set vs" and "finite U"
  shows "card (U - set (vs @ [x])) < card (insert x U - set vs)"
proof -
  have "U - set (vs @ [x]) \<subset> insert x U - set vs" using assms by auto
  moreover have "finite (insert x U - set vs)" using assms by simp
  ultimately show ?thesis by (rule psubset_card_mono[rotated])
qed

lemma insert_looked_up:
  "map_of m a = Some t \<Longrightarrow> insert (sysId t) (sysId ` snd ` set m) = sysId ` snd ` set m"
  by (force dest: map_of_SomeD)

function visit :: "(SystemId \<times> System) list \<Rightarrow> SystemId list \<Rightarrow> System \<Rightarrow> sortState
      \<Rightarrow> jserror + sortState"
  and visitAfter :: "(SystemId \<times> System) list \<Rightarrow> SystemId list \<Rightarrow> SystemId list \<Rightarrow> sortState
      \<Rightarrow> jserror + sortState"
where
  "visit systemMap visiting system st =
     (if sysId system \<in> set (snd st) then Inr st
      else if sysId system \<in> set visiting then Inl (CircularDependency (sysId system))
      else case visitAfter systemMap (visiting @ [sysId system]) (runAfter system) st of
             Inl e \<Rightarrow> Inl e
           | Inr st1 \<Rightarrow>
               (if \<exists>beforeId \<in> set (runBefore system).
                     (case map_of systemMap beforeId of
                        Some beforeSystem \<Rightarrow> sysId beforeSystem \<notin> set (snd st1)
                      | None \<Rightarrow> False)
                then Inr st1
                else Inr (fst st1 @ [system], snd st1 @ [sysId system])))"
| "visitAfter systemMap visiting [] st = Inr st"
| "visitAfter systemMap visiting (afterId # rest) st =
     (case map_of systemMap afterId of
        None \<Rightarrow> visitAfter systemMap visiting rest st
      | Some afterSystem \<Rightarrow>
          (case visit systemMap visiting afterSystem st of
             Inl e \<Rightarrow> Inl e
           | Inr st1 \<Rightarrow> visitAfter systemMap visiting rest st1))"
  by pat_completeness auto

text \<open>The recursion ends because \<open>visiting\<close> grows with every nested \<open>visit\<close> and a
  system that is already in it throws.\<close>

termination
  apply (relation "inv_image (less_than <*lex*> less_than)
     (\<lambda>x. case x of
        Inl (m, vs, s, st) \<Rightarrow> (card ((insert (sysId s) (sysId ` snd ` set m)) - set vs), 0)
      | Inr (m, vs, as, st) \<Rightarrow> (card ((sysId ` snd ` set m) - set vs), Suc (length as)))")
      apply (intro wf_inv_image wf_lex_prod wf_less_than)
     apply (simp add: card_visit_less del: set_append)
    apply simp
   apply (simp add: insert_looked_up)
  apply simp
  done

declare visit.simps [simp del]

text \<open>The loop \<open>for (const system of byPriority) visit(system)\<close>.\<close>

fun visitEach :: "(SystemId \<times> System) list \<Rightarrow> System list \<Rightarrow> sortState \<Rightarrow> jserror + sortState" where
  "visitEach systemMap [] st = Inr st"
| "visitEach systemMap (system # rest) st =
     (case visit systemMap [] system st of
        Inl e \<Rightarrow> Inl e
      | Inr st1 \<Rightarrow> visitEach systemMap rest st1)"

text \<open>\<open>new Map(pairs)\<close> keeps the last value of a repeated key, hence the \<open>rev\<close>;
  \<open>Array.prototype.sort\<close> is stable, as \<open>sort_key\<close> is, and the comparator
  \<open>b.priority - a.priority\<close> orders by descending priority.\<close>

definition topologicalSort :: "System list \<Rightarrow> jserror + System list" where
  "topologicalSort systems =
     (let systemMap = rev (map (\<lambda>s. (sysId s, s)) systems);
          byPriority = sort_key (\<lambda>s. - priority s) systems
      in case visitEach systemMap byPriority ([], []) of
           Inl e \<Rightarrow> Inl e
         | Inr st \<Rightarrow> Inr (fst st))"

record SystemScheduler =
  systems :: "(SystemId \<times> System) list"
  executionOrder :: "(SystemPhase \<times> SystemId list) list"
  schedDirty :: bool

definition newScheduler :: SystemScheduler where
  "newScheduler = \<lparr>systems = [], executionOrder = [], schedDirty = True\<rparr>"

definition addSystem :: "System \<Rightarrow> SystemScheduler \<Rightarrow> jserror + SystemScheduler" where
  "addSystem system sch =
     (if map_of (systems sch) (sysId system) \<noteq> None
      then Inl (SystemExists (sysId system))
      else Inr (sch\<lparr>systems := AList.update (sysId system) system (systems sch),
                    schedDirty := True\<rparr>))"

definition removeSystem :: "SystemId \<Rightarrow> SystemScheduler \<Rightarrow> SystemScheduler \<times> bool" where
  "removeSystem systemId sch =
     (if map_of (systems sch) systemId \<noteq> None
      then (sch\<lparr>systems := AList.delete systemId (systems sch), schedDirty := True\<rparr>, True)
      else (sch, False))"

text \<open>\<open>recomputeExecutionOrder\<close>: a circular dependency aborts it with the orders of
  the earlier phases already stored and the dirty flag still set.\<close>

fun recomputePhases :: "(SystemId \<times> System) list \<Rightarrow> SystemPhase list
      \<Rightarrow> (SystemPhase \<times> SystemId list) list \<Rightarrow> (SystemPhase \<times> SystemId list) list \<times> jserror option" where
  "recomputePhases syss [] eo = (eo, None)"
| "recomputePhases syss (p # ps) eo =
     (case topologicalSort (filter (\<lambda>s. hasPhase s p) (map snd syss)) of
        Inl e \<Rightarrow> (eo, Some e)
      | Inr ordered \<Rightarrow> recomputePhases syss ps (AList.update p (map sysId ordered) eo))"

definition recomputeExecutionOrder :: "SystemScheduler \<Rightarrow> SystemScheduler \<times> jserror option" where
  "recomputeExecutionOrder sch =
     (case recomputePhases (systems sch) [Init, FixedUpdate, Update, LateUpdate, Cleanup] [] of
        (eo, Some e) \<Rightarrow> (sch\<lparr>executionOrder := eo\<rparr>, Some e)
      | (eo, None) \<Rightarrow> (sch\<lparr>executionOrder := eo, schedDirty := False\<rparr>, None))"

subsection \<open>Dispatch\<close>

text \<open>The body of the loop of \<open>executePhase\<close> for one system id. The system object is
  mutated in place, so its entry in the map is replaced. The phase-level handler is
  called inside the \<open>catch\<close> block: what it throws leaves the loop and
  \<open>executePhase\<close>.\<close>

definition dispatch :: "SystemPhase \<Rightarrow> SystemContext \<Rightarrow> SystemErrorHandler option \<Rightarrow> SystemId
      \<Rightarrow> (SystemId \<times> System) list
      \<Rightarrow> (SystemId \<times> System) list \<times> event list \<times> jserror option" where
  "dispatch ph ctx errorHandler systemId syss =
     (case map_of syss systemId of
        None \<Rightarrow> (syss, [], None)
      | Some system \<Rightarrow>
          if \<not> enabled system then (syss, [], None)
          else (case run system (ctx\<lparr>phase := ph\<rparr>) of
                  (s1, evs, None) \<Rightarrow> (AList.update systemId s1 syss, evs, None)
                | (s1, evs, Some e) \<Rightarrow>
                    (case errorHandler of
                       Some h \<Rightarrow>
                         (case h \<lparr>errSystemId = sysId s1, error = e, errPhase = ph,
                                    errConsecutiveFailures = consecutiveFailures s1\<rparr> of
                            HandlerThrows thrown \<Rightarrow> (AList.update systemId s1 syss, evs, Some thrown)
                          | HandlerReturns strategy \<Rightarrow>
                              (AList.update systemId
                                 (if strategy = Some DISABLE then s1\<lparr>enabled := False\<rparr> else s1) syss,
                               evs, None))
                     | None \<Rightarrow> (AList.update systemId s1 syss, evs, None))))"

fun phaseLoop :: "SystemPhase \<Rightarrow> SystemContext \<Rightarrow> SystemErrorHandler option \<Rightarrow> SystemId list
      \<Rightarrow> (SystemId \<times> System) list
      \<Rightarrow> (SystemId \<times> System) list \<times> event list \<times> jserror option" where
  "phaseLoop ph ctx errorHandler [] syss = (syss, [], None)"
| "phaseLoop ph ctx errorHandler (systemId # rest) syss =
     (case dispatch ph ctx errorHandler systemId syss of
        (syss1, evs1, Some e) \<Rightarrow> (syss1, evs1, Some e)
      | (syss1, evs1, None) \<Rightarrow>
          (case phaseLoop ph ctx errorHandler rest syss1 of
             (syss2, evs2, err) \<Rightarrow> (syss2, evs1 @ evs2, err)))"

definition executePhase :: "SystemPhase \<Rightarrow> SystemContext \<Rightarrow> SystemErrorHandler option
      \<Rightarrow> SystemScheduler \<Rightarrow> SystemScheduler \<times> event list \<times> jserror option" where
  "executePhase ph ctx errorHandler sch =
     (case (if schedDirty sch then recomputeExecutionOrder sch else (sch, None)) of
        (sch1, Some e) \<Rightarrow> (sch1, [], Some e)
      | (sch1, None) \<Rightarrow>
          (let systemIds = (case map_of (executionOrder sch1) ph of Some ids \<Rightarrow> ids | None \<Rightarrow> [])
           in case phaseLoop ph ctx errorHandler systemIds (systems sch1) of
                (syss1, evs, err) \<Rightarrow> (sch1\<lparr>systems := syss1\<rparr>, PhaseExecuted ph ctx # evs, err)))"

section \<open>Component store (core/component.ts)\<close>

text \<open>A component instance: the \<open>componentId\<close> of its class, its data (opaque here) and
  the \<open>entity\<close> back-reference that \<open>ComponentStore.add\<close> stamps on it.\<close>

record Component =
  componentId :: ComponentId
  payload :: int
  entity :: "EntityId option"

record ComponentStore =
  components :: "(EntityId \<times> (ComponentId \<times> Component list) list) list"
  componentIndex :: "(ComponentId \<times> EntityId list) list"

definition newComponentStore :: ComponentStore where
  "newComponentStore = \<lparr>components = [], componentIndex = []\<rparr>"

text \<open>\<open>Set.add\<close> on an insertion-ordered set.\<close>

definition set_add :: "'a \<Rightarrow> 'a list \<Rightarrow> 'a list" where
  "set_add x xs = (if x \<in> set xs then xs else xs @ [x])"

definition storeAdd :: "EntityId \<Rightarrow> Component \<Rightarrow> ComponentStore \<Rightarrow> ComponentStore" where
  "storeAdd entityId component st =
     (let entityComponents = (case map_of (components st) entityId of Some ec \<Rightarrow> ec | None \<Rightarrow> []);
          cid = componentId component;
          existing = (case map_of entityComponents cid of Some l \<Rightarrow> l | None \<Rightarrow> []);
          stamped = component\<lparr>entity := Some entityId\<rparr>;
          index = (case map_of (componentIndex st) cid of Some ix \<Rightarrow> ix | None \<Rightarrow> [])
      in st\<lparr>components :=
               AList.update entityId (AList.update cid (existing @ [stamped]) entityComponents)
                 (components st),
             componentIndex := AList.update cid (set_add entityId index) (componentIndex st)\<rparr>)"

text \<open>Removing \<open>entityId\<close> from the index set of \<open>cid\<close>, pruning the set once empty
  (shared by \<open>remove\<close> and \<open>removeAllComponents\<close>).\<close>

definition unindex :: "EntityId \<Rightarrow> ComponentId \<Rightarrow> (ComponentId \<times> EntityId list) list
      \<Rightarrow> (ComponentId \<times> EntityId list) list" where
  "unindex entityId cid idx =
     (case map_of idx cid of
        None \<Rightarrow> idx
      | Some ix \<Rightarrow>
          (let ix1 = removeAll entityId ix
           in if ix1 = [] then AList.delete cid idx else AList.update cid ix1 idx))"

definition storeRemove :: "EntityId \<Rightarrow> ComponentId \<Rightarrow> ComponentStore \<Rightarrow> ComponentStore \<times> bool" where
  "storeRemove entityId cid st =
     (case map_of (components st) entityId of
        None \<Rightarrow> (st, False)
      | Some entityComponents \<Rightarrow>
          if map_of entityComponents cid \<noteq> None
          then (st\<lparr>components := AList.update entityId (AList.delete cid entityComponents) (components st),
                   componentIndex := unindex entityId cid (componentIndex st)\<rparr>, True)
          else (st, False))"

definition storeGet :: "ComponentStore \<Rightarrow> EntityId \<Rightarrow> ComponentId \<Rightarrow> Component option" where
  "storeGet st entityId cid =
     (case map_of (components st) entityId of
        None \<Rightarrow> None
      | Some entityComponents \<Rightarrow>
          (case map_of entityComponents cid of
             None \<Rightarrow> None
           | Some l \<Rightarrow> (case l of [] \<Rightarrow> None | c # _ \<Rightarrow> Some c)))"

definition has :: "ComponentStore \<Rightarrow> EntityId \<Rightarrow> ComponentId \<Rightarrow> bool" where
  "has st entityId cid =
     (case map_of (components st) entityId of
        None \<Rightarrow> False
      | Some entityComponents \<Rightarrow>
          (case map_of entityComponents cid of None \<Rightarrow> False | Some l \<Rightarrow> length l > 0))"

definition getEntitiesWithComponent :: "ComponentStore \<Rightarrow> ComponentId \<Rightarrow> EntityId list" where
  "getEntitiesWithComponent st cid =
     (case map_of (componentIndex st) cid of Some ix \<Rightarrow> ix | None \<Rightarrow> [])"

definition removeAllComponents :: "EntityId \<Rightarrow> ComponentStore \<Rightarrow> ComponentStore" where
  "removeAllComponents entityId st =
     (case map_of (components st) entityId of
        None \<Rightarrow> st
      | Some entityComponents \<Rightarrow>
          st\<lparr>componentIndex := fold (unindex entityId) (map fst entityComponents) (componentIndex st),
             components := AList.delete entityId (components st)\<rparr>)"

definition getAllEntities :: "ComponentStore \<Rightarrow> EntityId list" where
  "getAllEntities st = map fst (components st)"

section \<open>Query engine and cache (core/query.ts)\<close>

datatype filterType = FAll | FAny | FNone

record QueryFilter =
  ftype :: filterType
  fcomponents :: "ComponentId list"

record QueryDescriptor =
  allOf :: "ComponentId list option"
  anyOf :: "ComponentId list option"
  noneOf :: "ComponentId list option"

text \<open>
  A \<open>Query\<close> reads the component store it was constructed with; the store is an argument
  of the operations here. \<open>resultSignal\<close> is the value held by the signal that
  \<open>reactive()\<close> creates (absent until then); \<open>execute\<close> writes every recomputed result
  to it. The subscribers of that signal belong to the reactive graph below.
\<close>

record Query =
  filters :: "QueryFilter list"
  cachedResults :: "EntityId list option"
  resultSignal :: "EntityId list option"
  dirty :: bool

definition nonEmpty :: "ComponentId list option \<Rightarrow> bool" where
  "nonEmpty l = (case l of Some cs \<Rightarrow> length cs > 0 | None \<Rightarrow> False)"

definition newQuery :: "QueryDescriptor \<Rightarrow> jserror + Query" where
  "newQuery descriptor =
     (let fs = (if nonEmpty (allOf descriptor)
                then [\<lparr>ftype = FAll, fcomponents = the (allOf descriptor)\<rparr>] else [])
             @ (if nonEmpty (anyOf descriptor)
                then [\<lparr>ftype = FAny, fcomponents = the (anyOf descriptor)\<rparr>] else [])
             @ (if nonEmpty (noneOf descriptor)
                then [\<lparr>ftype = FNone, fcomponents = the (noneOf descriptor)\<rparr>] else [])
      in if length fs = 0 then Inl EmptyQuery
         else Inr \<lparr>filters = fs, cachedResults = None, resultSignal = None, dirty = True\<rparr>)"

fun matchesFilters :: "ComponentStore \<Rightarrow> EntityId \<Rightarrow> QueryFilter list \<Rightarrow> bool" where
  "matchesFilters st entityId [] = True"
| "matchesFilters st entityId (f # fs) =
     (case ftype f of
        FAll \<Rightarrow> if \<not> list_all (\<lambda>c. has st entityId c) (fcomponents f) then False
                else matchesFilters st entityId fs
      | FAny \<Rightarrow> if \<not> list_ex (\<lambda>c. has st entityId c) (fcomponents f) then False
                else matchesFilters st entityId fs
      | FNone \<Rightarrow> if list_ex (\<lambda>c. has st entityId c) (fcomponents f) then False
                 else matchesFilters st entityId fs)"

definition matches :: "Query \<Rightarrow> ComponentStore \<Rightarrow> EntityId \<Rightarrow> bool" where
  "matches q st entityId = matchesFilters st entityId (filters q)"

text \<open>\<open>getCandidateEntities\<close>: the union over the any-filters, narrowed by every
  component of the all-filters, or every entity the store knows of.\<close>

definition unionAny :: "ComponentStore \<Rightarrow> QueryFilter list \<Rightarrow> EntityId list" where
  "unionAny st anyFilters =
     fold (\<lambda>f cands. fold (\<lambda>c cands1. fold set_add (getEntitiesWithComponent st c) cands1)
                        (fcomponents f) cands)
          anyFilters []"

definition narrowAll :: "ComponentStore \<Rightarrow> QueryFilter list \<Rightarrow> EntityId list option
      \<Rightarrow> EntityId list option" where
  "narrowAll st allFilters candidates =
     fold (\<lambda>f cands. fold (\<lambda>c cands1.
                          (let entities = getEntitiesWithComponent st c
                           in case cands1 of
                                None \<Rightarrow> Some entities
                              | Some cs \<Rightarrow> Some (filter (\<lambda>i. i \<in> set entities) cs)))
                        (fcomponents f) cands)
          allFilters candidates"

definition getCandidateEntities :: "Query \<Rightarrow> ComponentStore \<Rightarrow> EntityId list" where
  "getCandidateEntities q st =
     (let anyFilters = filter (\<lambda>f. ftype f = FAny) (filters q);
          candidates0 = (if length anyFilters > 0 then Some (unionAny st anyFilters) else None);
          allFilters = filter (\<lambda>f. ftype f = FAll) (filters q);
          candidates1 = narrowAll st allFilters candidates0
      in case candidates1 of None \<Rightarrow> getAllEntities st | Some cs \<Rightarrow> cs)"

text \<open>\<open>execute\<close> returns the result set and the query with its cache refreshed.\<close>

definition execute :: "Query \<Rightarrow> ComponentStore \<Rightarrow> EntityId list \<times> Query" where
  "execute q st =
     (if \<not> dirty q \<and> cachedResults q \<noteq> None then (the (cachedResults q), q)
      else (let candidateEntities = getCandidateEntities q st;
                results = filter (\<lambda>entityId. matches q st entityId) candidateEntities
            in (results,
                q\<lparr>cachedResults := Some results, dirty := False,
                  resultSignal := (if resultSignal q \<noteq> None then Some results else None)\<rparr>)))"

definition markDirty :: "Query \<Rightarrow> Query" where
  "markDirty q = q\<lparr>dirty := True\<rparr>"

text \<open>\<open>QueryCache\<close>. The key joins the sorted type lists; \<open>Array.prototype.sort\<close>
  without comparator orders strings by code units, here the lexicographic order on
  character lists, and it sorts the descriptor's own arrays in place.\<close>

fun join :: "string \<Rightarrow> string list \<Rightarrow> string" where
  "join sep [] = []"
| "join sep [x] = x"
| "join sep (x # y # ys) = x @ sep @ join sep (y # ys)"

fun str_includes :: "string \<Rightarrow> string \<Rightarrow> bool" where
  "str_includes [] t = (t = [])"
| "str_includes (x # xs) t = (take (length t) (x # xs) = t \<or> str_includes xs t)"

definition sortDescriptor :: "QueryDescriptor \<Rightarrow> QueryDescriptor" where
  "sortDescriptor d = \<lparr>allOf = map_option sort (allOf d), anyOf = map_option sort (anyOf d),
                       noneOf = map_option sort (noneOf d)\<rparr>"

definition getKey :: "QueryDescriptor \<Rightarrow> string" where
  "getKey d =
     join ''|''
       ((case allOf d of Some cs \<Rightarrow> [''all:'' @ join '','' (sort cs)] | None \<Rightarrow> [])
      @ (case anyOf d of Some cs \<Rightarrow> [''any:'' @ join '','' (sort cs)] | None \<Rightarrow> [])
      @ (case noneOf d of Some cs \<Rightarrow> [''none:'' @ join '','' (sort cs)] | None \<Rightarrow> []))"

type_synonym QueryCache = "(string \<times> Query) list"

text \<open>\<open>QueryCache.get\<close> returns the Query instance; an instance is named by its key.\<close>

definition cacheGet :: "QueryDescriptor \<Rightarrow> QueryCache \<Rightarrow> jserror + (string \<times> QueryCache)" where
  "cacheGet descriptor queries =
     (let key = getKey descriptor
      in case map_of queries key of
           Some q \<Rightarrow> Inr (key, queries)
         | None \<Rightarrow>
             (case newQuery (sortDescriptor descriptor) of
                Inl e \<Rightarrow> Inl e
              | Inr q \<Rightarrow> Inr (key, AList.update key q queries)))"

definition markAllDirty :: "QueryCache \<Rightarrow> QueryCache" where
  "markAllDirty queries = map (\<lambda>(key, q). (key, markDirty q)) queries"

definition markDirtyForComponent :: "ComponentId \<Rightarrow> QueryCache \<Rightarrow> QueryCache" where
  "markDirtyForComponent cid queries =
     map (\<lambda>(key, q). (key, if str_includes key cid then markDirty q else q)) queries"

section \<open>World (core/world.ts, core/entity.ts)\<close>

text \<open>
  The module-level counter \<open>nextEntityId\<close> is shared by all Worlds; the operations that
  read it take it as an argument and return it advanced. \<open>batch\<close>, which wraps the
  structural mutations, touches only the reactive graph's batching state, modelled in
  its own section. The self-driving loop of \<open>start\<close>/\<open>stop\<close> (animation frames,
  timers) is not modelled; \<open>update\<close> is.
\<close>

record Entity =
  entityId :: EntityId

definition createEntityId :: "int \<Rightarrow> EntityId \<times> int" where
  "createEntityId nextEntityId = (nextEntityId, nextEntityId + 1)"

record WorldConfig =
  fixedTimestep :: number
  maxFixedUpdates :: int
  cfgErrorHandler :: SystemErrorHandler

record World =
  entities :: "(EntityId \<times> Entity) list"
  componentStore :: ComponentStore
  systemScheduler :: SystemScheduler
  queryCache :: QueryCache
  config :: WorldConfig
  errorHandler :: SystemErrorHandler
  time :: number
  fixedTime :: number
  accumulator :: number
  running :: bool
  paused :: bool

text \<open>\<open>defaultErrorHandler\<close>. Building the arguments of its first logging call it reads
  \<open>ctx.error.message\<close>, which throws a \<open>TypeError\<close> when the thrown value is
  \<open>null\<close> or \<open>undefined\<close>. The logger itself (\<open>core/logger.ts\<close>) only writes
  to the console and is left out.\<close>

definition defaultErrorHandler :: SystemErrorHandler where
  "defaultErrorHandler ctx =
     (if error ctx = Nullish then HandlerThrows TypeError
      else if errConsecutiveFailures ctx \<ge> 3 then HandlerReturns (Some DISABLE)
      else HandlerReturns (Some IGNORE))"

text \<open>The constructor; the default timestep is the number that \<open>1000 / 60\<close> evaluates
  to.\<close>

definition newWorld :: "number option \<Rightarrow> int option \<Rightarrow> SystemErrorHandler option \<Rightarrow> World" where
  "newWorld cfgFixedTimestep cfgMaxFixedUpdates cfgHandler =
     (let cfg = \<lparr>fixedTimestep = (case cfgFixedTimestep of Some t \<Rightarrow> t
                                  | None \<Rightarrow> roundNumber (1000 / 60)),
                 maxFixedUpdates = (case cfgMaxFixedUpdates of Some m \<Rightarrow> m | None \<Rightarrow> 5),
                 cfgErrorHandler = (case cfgHandler of Some h \<Rightarrow> h | None \<Rightarrow> defaultErrorHandler)\<rparr>
      in \<lparr>entities = [], componentStore = newComponentStore, systemScheduler = newScheduler,
          queryCache = [], config = cfg, errorHandler = cfgErrorHandler cfg,
          time = Finite 0, fixedTime = Finite 0, accumulator = Finite 0,
          running = False, paused = False\<rparr>)"

definition createEntity :: "World \<Rightarrow> int \<Rightarrow> Entity \<times> World \<times> int" where
  "createEntity w nextEntityId =
     (case createEntityId nextEntityId of
        (i, next1) \<Rightarrow>
          (let e = \<lparr>entityId = i\<rparr>
           in (e, w\<lparr>entities := AList.update (entityId e) e (entities w)\<rparr>, next1)))"

definition createEntityWithId :: "EntityId \<Rightarrow> World \<Rightarrow> jserror + (Entity \<times> World)" where
  "createEntityWithId i w =
     (if map_of (entities w) i \<noteq> None then Inl (EntityExists i)
      else (let e = \<lparr>entityId = i\<rparr>
            in Inr (e, w\<lparr>entities := AList.update (entityId e) e (entities w)\<rparr>)))"

definition destroyEntity :: "EntityId \<Rightarrow> World \<Rightarrow> World \<times> bool" where
  "destroyEntity i w =
     (case map_of (entities w) i of
        None \<Rightarrow> (w, False)
      | Some e \<Rightarrow>
          (w\<lparr>componentStore := removeAllComponents i (componentStore w),
             entities := AList.delete i (entities w),
             queryCache := markAllDirty (queryCache w)\<rparr>, True))"

definition hasEntity :: "World \<Rightarrow> EntityId \<Rightarrow> bool" where
  "hasEntity w i = (map_of (entities w) i \<noteq> None)"

definition addComponent :: "EntityId \<Rightarrow> Component \<Rightarrow> World \<Rightarrow> jserror + World" where
  "addComponent i component w =
     (if map_of (entities w) i = None then Inl (EntityMissing i)
      else Inr (w\<lparr>componentStore := storeAdd i component (componentStore w),
                  queryCache := markDirtyForComponent (componentId component) (queryCache w)\<rparr>))"

definition removeComponent :: "EntityId \<Rightarrow> ComponentId \<Rightarrow> World \<Rightarrow> World \<times> bool" where
  "removeComponent i cid w =
     (case storeRemove i cid (componentStore w) of
        (st1, removed) \<Rightarrow>
          (if removed
           then (w\<lparr>componentStore := st1, queryCache := markDirtyForComponent cid (queryCache w)\<rparr>, True)
           else (w\<lparr>componentStore := st1\<rparr>, False)))"

text \<open>\<open>world.query(descriptor)\<close> hands out the cached Query instance, named by its key;
  \<open>executeQuery\<close> is \<open>execute()\<close> on that instance, which reads the World's store and
  keeps its refreshed cache.\<close>

definition query :: "QueryDescriptor \<Rightarrow> World \<Rightarrow> jserror + (string \<times> World)" where
  "query descriptor w =
     (case cacheGet descriptor (queryCache w) of
        Inl e \<Rightarrow> Inl e
      | Inr (key, qc) \<Rightarrow> Inr (key, w\<lparr>queryCache := qc\<rparr>))"

definition executeQuery :: "string \<Rightarrow> World \<Rightarrow> (EntityId list \<times> World) option" where
  "executeQuery key w =
     (case map_of (queryCache w) key of
        None \<Rightarrow> None
      | Some q \<Rightarrow>
          (case execute q (componentStore w) of
             (results, q1) \<Rightarrow> Some (results, w\<lparr>queryCache := AList.update key q1 (queryCache w)\<rparr>)))"

subsection \<open>The tick\<close>

text \<open>The \<open>while\<close> loop of \<open>update\<close>: the world, the local \<open>fixedUpdates\<close>, the events
  so far; it stops early when \<open>executePhase\<close> throws. \<open>maxFixedUpdates\<close> is a count,
  an integer.\<close>

function fixedLoop :: "World \<Rightarrow> nat \<Rightarrow> event list \<Rightarrow> World \<times> nat \<times> event list \<times> jserror option" where
  "fixedLoop w fixedUpdates evs =
     (let fixedDeltaTime = fixedTimestep (config w)
      in if numGe (accumulator w) fixedDeltaTime \<and> int fixedUpdates < maxFixedUpdates (config w)
         then (case executePhase FixedUpdate
                      \<lparr>deltaTime = fixedDeltaTime, ctxTime = fixedTime w, phase = FixedUpdate\<rparr>
                      (Some (errorHandler w)) (systemScheduler w) of
                 (sch1, evs1, Some e) \<Rightarrow> (w\<lparr>systemScheduler := sch1\<rparr>, fixedUpdates, evs @ evs1, Some e)
               | (sch1, evs1, None) \<Rightarrow>
                   fixedLoop (w\<lparr>systemScheduler := sch1,
                                 accumulator := numSub (accumulator w) fixedDeltaTime,
                                 fixedTime := numAdd (fixedTime w) fixedDeltaTime\<rparr>)
                             (Suc fixedUpdates) (evs @ evs1))
         else (w, fixedUpdates, evs, None))"
  by pat_completeness auto
termination
  by (relation "measure (\<lambda>(w, n, evs). nat (maxFixedUpdates (config w) - int n))") auto

declare fixedLoop.simps [simp del]

definition update :: "number \<Rightarrow> World \<Rightarrow> World \<times> event list \<times> jserror option" where
  "update dt w =
     (if paused w then (w, [], None)
      else (let w1 = w\<lparr>time := numAdd (time w) dt, accumulator := numAdd (accumulator w) dt\<rparr>
            in case fixedLoop w1 0 [] of
                 (w2, fixedUpdates, evs, Some e) \<Rightarrow> (w2, evs, Some e)
               | (w2, fixedUpdates, evs, None) \<Rightarrow>
                   (let w3 = (if int fixedUpdates \<ge> maxFixedUpdates (config w2)
                              then w2\<lparr>accumulator := Finite 0\<rparr> else w2)
                    in case executePhase Update
                              \<lparr>deltaTime = dt, ctxTime = time w3, phase = Update\<rparr>
                              (Some (errorHandler w3)) (systemScheduler w3) of
                         (sch1, evs1, Some e) \<Rightarrow> (w3\<lparr>systemScheduler := sch1\<rparr>, evs @ evs1, Some e)
                       | (sch1, evs1, None) \<Rightarrow>
                           (let w4 = w3\<lparr>systemScheduler := sch1\<rparr>
                            in case executePhase LateUpdate
                                      \<lparr>deltaTime = dt, ctxTime = time w4, phase = LateUpdate\<rparr>
                                      (Some (errorHandler w4)) (systemScheduler w4) of
                                 (sch2, evs2, err) \<Rightarrow>
                                   (w4\<lparr>systemScheduler := sch2\<rparr>, evs @ evs1 @ evs2, err)))))"

definition pause :: "World \<Rightarrow> World" where
  "pause w = w\<lparr>paused := True\<rparr>"

definition resume :: "World \<Rightarrow> World" where
  "resume w = w\<lparr>paused := False\<rparr>"

definition getTime :: "World \<Rightarrow> number" where
  "getTime w = time w"

definition getFixedTime :: "World \<Rightarrow> number" where
  "getFixedTime w = fixedTime w"

definition worldAddSystem :: "System \<Rightarrow> World \<Rightarrow> jserror + World" where
  "worldAddSystem system w =
     (case addSystem system (systemScheduler w) of
        Inl e \<Rightarrow> Inl e
      | Inr sch \<Rightarrow> Inr (w\<lparr>systemScheduler := sch\<rparr>))"

section \<open>Reactive graph (reactive/signal.ts)\<close>

text \<open>
  Reactive nodes live in a store indexed by natural numbers; a node's \<open>subscribers\<close> and
  \<open>dependencies\<close> are sets of such indices, in insertion order. The three classes share
  one record, \<open>kind\<close> telling them apart (it selects the override of \<open>update\<close>,
  \<open>get\<close>, \<open>peek\<close> and \<open>dispose\<close>). Numbers are exact integers plus \<open>NaN\<close>;
  \<open>Object.is\<close> is then equality of values, under which \<open>NaN\<close> equals itself.

  The functions passed to \<open>computed\<close>, \<open>effect\<close>, \<open>batch\<close> and \<open>untrack\<close> are user
  code. They are terms of \<open>expr\<close>: they read nodes (\<open>get\<close>, \<open>peek\<close>), write signals,
  compute, call spies, open nested batches, run untracked, and throw. An effect function
  may return a cleanup function (\<open>returnsCleanup\<close>). Functions that create or dispose
  nodes while they run are outside this fragment; creation and disposal are operations
  of their own.
\<close>

datatype jsval = Num int | NaN | Undefined

definition Object_is :: "jsval \<Rightarrow> jsval \<Rightarrow> bool" where
  "Object_is a b = (a = b)"

fun jsAdd :: "jsval \<Rightarrow> jsval \<Rightarrow> jsval" where
  "jsAdd (Num a) (Num b) = Num (a + b)"
| "jsAdd _ _ = NaN"

fun jsMul :: "jsval \<Rightarrow> jsval \<Rightarrow> jsval" where
  "jsMul (Num a) (Num b) = Num (a * b)"
| "jsMul _ _ = NaN"

datatype expr =
    Const jsval
  | Get nat
  | Peek nat
  | Add expr expr
  | Mul expr expr
  | Seq expr expr
  | Spy nat
  | SetSig nat expr
  | BatchE expr
  | Untrack expr
  | Throw string

datatype kind = SignalK | ComputedK | EffectK

record node =
  kind :: kind
  subscribers :: "nat list"
  dependencies :: "nat list"
  stale :: bool
  nvalue :: jsval
  computedFlag :: bool
  body :: expr
  returnsCleanup :: "expr option"
  cleanup :: "expr option"
  disposed :: bool

text \<open>The module state: the nodes, the current observer and its stack, the batching
  state, and the spies called so far (oldest first).\<close>

record rstate =
  nodes :: "nat \<Rightarrow> node"
  nextNode :: nat
  currentObserver :: "nat option"
  observerStack :: "nat list"
  batchDepth :: nat
  batchedSignals :: "nat list"
  calls :: "nat list"

text \<open>A call returns a value or throws, leaving a state either way; \<open>None\<close> stands for
  a call that does not return (a cyclic graph recurses without end).\<close>

datatype outcome = Ok jsval rstate | Threw jserror rstate

fun bind :: "outcome option \<Rightarrow> (jsval \<Rightarrow> rstate \<Rightarrow> outcome option) \<Rightarrow> outcome option" where
  "bind None f = None"
| "bind (Some (Threw e s)) f = Some (Threw e s)"
| "bind (Some (Ok v s)) f = f v s"

fun tryFinally :: "outcome option \<Rightarrow> (rstate \<Rightarrow> rstate) \<Rightarrow> outcome option" where
  "tryFinally None g = None"
| "tryFinally (Some (Ok v s)) g = Some (Ok v (g s))"
| "tryFinally (Some (Threw e s)) g = Some (Threw e (g s))"

text \<open>
  The methods call each other in cycles (\<open>get\<close> recomputes, recomputing runs user code,
  user code calls \<open>get\<close>), and on a cyclic graph without end. Each method takes the
  methods a nested call may enter as its argument \<open>rec\<close>; \<open>exec\<close> below closes the
  recursion with a bound on the nesting depth.
\<close>

datatype call = CGet nat | CPeek nat | CSet nat jsval | CUpdate nat | CFlush

type_synonym methods = "call \<Rightarrow> rstate \<Rightarrow> outcome option"

definition upd :: "nat \<Rightarrow> (node \<Rightarrow> node) \<Rightarrow> rstate \<Rightarrow> rstate" where
  "upd i f s = s\<lparr>nodes := (nodes s)(i := f (nodes s i))\<rparr>"

subsection \<open>ReactiveNode\<close>

definition track :: "nat \<Rightarrow> rstate \<Rightarrow> rstate" where
  "track this s =
     (case currentObserver s of
        Some obs \<Rightarrow>
          if obs \<noteq> this
          then upd obs (\<lambda>nd. nd\<lparr>dependencies := set_add this (dependencies nd)\<rparr>)
                 (upd this (\<lambda>nd. nd\<lparr>subscribers := set_add obs (subscribers nd)\<rparr>) s)
          else s
      | None \<Rightarrow> s)"

definition clearDependencies :: "nat \<Rightarrow> rstate \<Rightarrow> rstate" where
  "clearDependencies this s =
     upd this (\<lambda>nd. nd\<lparr>dependencies := []\<rparr>)
       (fold (\<lambda>dep s1. upd dep (\<lambda>nd. nd\<lparr>subscribers := removeAll this (subscribers nd)\<rparr>) s1)
             (dependencies (nodes s this)) s)"

text \<open>\<open>notify\<close>: the subscribers are snapshotted; the first loop marks, the second
  updates.\<close>

definition markStale :: "nat \<Rightarrow> nat list \<Rightarrow> rstate \<Rightarrow> rstate" where
  "markStale this snapshot s =
     fold (\<lambda>sub s1. if sub \<in> set (subscribers (nodes s1 this))
                     then upd sub (\<lambda>nd. nd\<lparr>stale := True\<rparr>) s1 else s1)
          snapshot s"

fun notifyRun :: "methods \<Rightarrow> nat \<Rightarrow> nat list \<Rightarrow> rstate \<Rightarrow> outcome option" where
  "notifyRun rec this [] s = Some (Ok Undefined s)"
| "notifyRun rec this (sub # rest) s =
     (if sub \<in> set (subscribers (nodes s this))
      then bind (rec (CUpdate sub) s) (\<lambda>_ s1. notifyRun rec this rest s1)
      else notifyRun rec this rest s)"

definition notify :: "methods \<Rightarrow> nat \<Rightarrow> rstate \<Rightarrow> outcome option" where
  "notify rec this s =
     (let snapshot = subscribers (nodes s this)
      in notifyRun rec this snapshot (markStale this snapshot s))"

definition baseDispose :: "nat \<Rightarrow> rstate \<Rightarrow> rstate" where
  "baseDispose this s = upd this (\<lambda>nd. nd\<lparr>subscribers := []\<rparr>) (clearDependencies this s)"

subsection \<open>batch, untrack and user code\<close>

definition enterObserver :: "nat \<Rightarrow> rstate \<Rightarrow> rstate" where
  "enterObserver this s =
     s\<lparr>currentObserver := Some this, observerStack := observerStack s @ [this]\<rparr>"

definition leaveObserver :: "nat option \<Rightarrow> rstate \<Rightarrow> rstate" where
  "leaveObserver prevObserver s =
     s\<lparr>observerStack := butlast (observerStack s), currentObserver := prevObserver\<rparr>"

text \<open>\<open>batch(fn)\<close>: the \<open>finally\<close> block runs whether \<open>fn\<close> returned or threw; an
  error of the flush replaces the one of \<open>fn\<close>.\<close>

definition batch :: "methods \<Rightarrow> (rstate \<Rightarrow> outcome option) \<Rightarrow> rstate \<Rightarrow> outcome option" where
  "batch rec body_fn s =
     (case body_fn (s\<lparr>batchDepth := batchDepth s + 1\<rparr>) of
        None \<Rightarrow> None
      | Some (Ok v s1) \<Rightarrow>
          (let s2 = s1\<lparr>batchDepth := batchDepth s1 - 1\<rparr>
           in if batchDepth s2 = 0
              then bind (rec CFlush s2) (\<lambda>_ s3. Some (Ok v s3))
              else Some (Ok v s2))
      | Some (Threw err s1) \<Rightarrow>
          (let s2 = s1\<lparr>batchDepth := batchDepth s1 - 1\<rparr>
           in if batchDepth s2 = 0
              then bind (rec CFlush s2) (\<lambda>_ s3. Some (Threw err s3))
              else Some (Threw err s2)))"

definition untrack :: "(rstate \<Rightarrow> outcome option) \<Rightarrow> rstate \<Rightarrow> outcome option" where
  "untrack body_fn s =
     tryFinally (body_fn (s\<lparr>currentObserver := None\<rparr>))
                (\<lambda>s1. s1\<lparr>currentObserver := currentObserver s\<rparr>)"

fun eval :: "methods \<Rightarrow> expr \<Rightarrow> rstate \<Rightarrow> outcome option" where
  "eval rec (Const v) s = Some (Ok v s)"
| "eval rec (Get i) s = rec (CGet i) s"
| "eval rec (Peek i) s = rec (CPeek i) s"
| "eval rec (Add a b) s =
     bind (eval rec a s) (\<lambda>x s1. bind (eval rec b s1) (\<lambda>y s2. Some (Ok (jsAdd x y) s2)))"
| "eval rec (Mul a b) s =
     bind (eval rec a s) (\<lambda>x s1. bind (eval rec b s1) (\<lambda>y s2. Some (Ok (jsMul x y) s2)))"
| "eval rec (Seq a b) s = bind (eval rec a s) (\<lambda>_ s1. eval rec b s1)"
| "eval rec (Spy k) s = Some (Ok Undefined (s\<lparr>calls := calls s @ [k]\<rparr>))"
| "eval rec (SetSig i a) s = bind (eval rec a s) (\<lambda>v s1. rec (CSet i v) s1)"
| "eval rec (BatchE a) s = batch rec (\<lambda>s1. eval rec a s1) s"
| "eval rec (Untrack a) s = untrack (\<lambda>s1. eval rec a s1) s"
| "eval rec (Throw msg) s = Some (Threw (UserError msg) s)"

subsection \<open>Signal\<close>

definition signalGet :: "nat \<Rightarrow> rstate \<Rightarrow> outcome option" where
  "signalGet this s = (let s1 = track this s in Some (Ok (nvalue (nodes s1 this)) s1))"

definition signalSet :: "methods \<Rightarrow> nat \<Rightarrow> jsval \<Rightarrow> rstate \<Rightarrow> outcome option" where
  "signalSet rec this newValue s =
     (if \<not> Object_is (nvalue (nodes s this)) newValue
      then (let s1 = upd this (\<lambda>nd. nd\<lparr>nvalue := newValue, stale := False\<rparr>) s
            in if batchDepth s1 > 0
               then Some (Ok Undefined (s1\<lparr>batchedSignals := set_add this (batchedSignals s1)\<rparr>))
               else notify rec this s1)
      else Some (Ok Undefined s))"

subsection \<open>Computed\<close>

definition recompute :: "methods \<Rightarrow> nat \<Rightarrow> rstate \<Rightarrow> outcome option" where
  "recompute rec this s =
     (let s1 = clearDependencies this s;
          prevObserver = currentObserver s1;
          s2 = enterObserver this s1
      in tryFinally
           (bind (eval rec (body (nodes s2 this)) s2)
                 (\<lambda>v s3. Some (Ok Undefined
                    (upd this (\<lambda>nd. nd\<lparr>nvalue := v, computedFlag := True, stale := False\<rparr>) s3))))
           (leaveObserver prevObserver))"

definition computedGet :: "methods \<Rightarrow> nat \<Rightarrow> rstate \<Rightarrow> outcome option" where
  "computedGet rec this s =
     bind (if stale (nodes s this) \<or> \<not> computedFlag (nodes s this) then recompute rec this s
           else Some (Ok Undefined s))
          (\<lambda>_ s1. let s2 = track this s1
                   in if nvalue (nodes s2 this) = Undefined then Some (Threw ComputedUndefined s2)
                      else Some (Ok (nvalue (nodes s2 this)) s2))"

definition computedPeek :: "methods \<Rightarrow> nat \<Rightarrow> rstate \<Rightarrow> outcome option" where
  "computedPeek rec this s =
     bind (if \<not> computedFlag (nodes s this) then recompute rec this s else Some (Ok Undefined s))
          (\<lambda>_ s1. if nvalue (nodes s1 this) = Undefined then Some (Threw ComputedUndefined s1)
                   else Some (Ok (nvalue (nodes s1 this)) s1))"

definition computedUpdate :: "methods \<Rightarrow> nat \<Rightarrow> rstate \<Rightarrow> outcome option" where
  "computedUpdate rec this s =
     (if \<not> stale (nodes s this) then Some (Ok Undefined s)
      else bind (recompute rec this s) (\<lambda>_ s1. notify rec this s1))"

subsection \<open>Effect\<close>

definition runCleanup :: "methods \<Rightarrow> nat \<Rightarrow> rstate \<Rightarrow> outcome option" where
  "runCleanup rec this s =
     (case cleanup (nodes s this) of
        Some c \<Rightarrow> bind (eval rec c s)
                   (\<lambda>_ s1. Some (Ok Undefined (upd this (\<lambda>nd. nd\<lparr>cleanup := None\<rparr>) s1)))
      | None \<Rightarrow> Some (Ok Undefined s))"

definition effectRun :: "methods \<Rightarrow> nat \<Rightarrow> rstate \<Rightarrow> outcome option" where
  "effectRun rec this s =
     (if disposed (nodes s this) then Some (Ok Undefined s)
      else (let s1 = clearDependencies this s;
                prevObserver = currentObserver s1;
                s2 = enterObserver this s1
            in tryFinally
                 (bind (runCleanup rec this s2)
                    (\<lambda>_ s3. bind (eval rec (body (nodes s3 this)) s3)
                       (\<lambda>_ s4. Some (Ok Undefined
                          (upd this (\<lambda>nd. nd\<lparr>cleanup := returnsCleanup nd, stale := False\<rparr>) s4)))))
                 (leaveObserver prevObserver)))"

definition effectUpdate :: "methods \<Rightarrow> nat \<Rightarrow> rstate \<Rightarrow> outcome option" where
  "effectUpdate rec this s =
     (if \<not> stale (nodes s this) \<or> disposed (nodes s this) then Some (Ok Undefined s)
      else effectRun rec this s)"

subsection \<open>Dispatch on the class, and the flush\<close>

definition nodeGet :: "methods \<Rightarrow> nat \<Rightarrow> rstate \<Rightarrow> outcome option" where
  "nodeGet rec this s =
     (case kind (nodes s this) of
        SignalK \<Rightarrow> signalGet this s
      | ComputedK \<Rightarrow> computedGet rec this s
      | EffectK \<Rightarrow> Some (Threw TypeError s))"

definition nodePeek :: "methods \<Rightarrow> nat \<Rightarrow> rstate \<Rightarrow> outcome option" where
  "nodePeek rec this s =
     (case kind (nodes s this) of
        SignalK \<Rightarrow> Some (Ok (nvalue (nodes s this)) s)
      | ComputedK \<Rightarrow> computedPeek rec this s
      | EffectK \<Rightarrow> Some (Threw TypeError s))"

definition nodeUpdate :: "methods \<Rightarrow> nat \<Rightarrow> rstate \<Rightarrow> outcome option" where
  "nodeUpdate rec this s =
     (case kind (nodes s this) of
        SignalK \<Rightarrow> Some (Ok Undefined s)
      | ComputedK \<Rightarrow> computedUpdate rec this s
      | EffectK \<Rightarrow> effectUpdate rec this s)"

text \<open>\<open>flushBatchedUpdates\<close>: the first loop marks every subscriber of every batched
  signal and collects it into \<open>pending\<close>; the second updates the collected nodes.\<close>

definition collectPending :: "rstate \<Rightarrow> rstate \<times> nat list" where
  "collectPending s =
     fold (\<lambda>sig sp. fold (\<lambda>sub (s1, pending).
                             (upd sub (\<lambda>nd. nd\<lparr>stale := True\<rparr>) s1, set_add sub pending))
                          (subscribers (nodes (fst sp) sig)) sp)
          (batchedSignals s) (s, [])"

fun flushRun :: "methods \<Rightarrow> nat list \<Rightarrow> rstate \<Rightarrow> outcome option" where
  "flushRun rec [] s = Some (Ok Undefined s)"
| "flushRun rec (sub # rest) s = bind (nodeUpdate rec sub s) (\<lambda>_ s1. flushRun rec rest s1)"

definition flushBatchedUpdates :: "methods \<Rightarrow> rstate \<Rightarrow> outcome option" where
  "flushBatchedUpdates rec s =
     (if length (batchedSignals s) = 0 then Some (Ok Undefined s)
      else (case collectPending s of
              (s1, pending) \<Rightarrow> flushRun rec pending (s1\<lparr>batchedSignals := []\<rparr>)))"

subsection \<open>Closing the recursion\<close>

text \<open>\<open>exec n\<close> performs a method call whose nested method calls go at most \<open>n\<close>
  deep.\<close>

primrec exec :: "nat \<Rightarrow> call \<Rightarrow> rstate \<Rightarrow> outcome option" where
  "exec 0 c s = None"
| "exec (Suc n) c s =
     (case c of
        CGet i \<Rightarrow> nodeGet (exec n) i s
      | CPeek i \<Rightarrow> nodePeek (exec n) i s
      | CSet i v \<Rightarrow> signalSet (exec n) i v s
      | CUpdate i \<Rightarrow> nodeUpdate (exec n) i s
      | CFlush \<Rightarrow> flushBatchedUpdates (exec n) s)"

subsection \<open>Creating and disposing nodes\<close>

definition newNode :: "kind \<Rightarrow> jsval \<Rightarrow> expr \<Rightarrow> expr option \<Rightarrow> rstate \<Rightarrow> nat \<times> rstate" where
  "newNode k v e c s =
     (nextNode s,
      s\<lparr>nodes := (nodes s)(nextNode s :=
           \<lparr>kind = k, subscribers = [], dependencies = [], stale = False, nvalue = v,
            computedFlag = False, body = e, returnsCleanup = c, cleanup = None,
            disposed = False\<rparr>),
        nextNode := Suc (nextNode s)\<rparr>)"

definition signal :: "jsval \<Rightarrow> rstate \<Rightarrow> nat \<times> rstate" where
  "signal initialValue s = newNode SignalK initialValue (Const Undefined) None s"

definition computed :: "expr \<Rightarrow> rstate \<Rightarrow> nat \<times> rstate" where
  "computed compute s = newNode ComputedK Undefined compute None s"

text \<open>\<open>new Effect(fn)\<close> runs the effect at once.\<close>

definition effect :: "methods \<Rightarrow> expr \<Rightarrow> expr option \<Rightarrow> rstate \<Rightarrow> nat \<times> outcome option" where
  "effect rec effect_fn c s =
     (case newNode EffectK Undefined effect_fn c s of (this, s1) \<Rightarrow> (this, effectRun rec this s1))"

definition dispose :: "methods \<Rightarrow> nat \<Rightarrow> rstate \<Rightarrow> outcome option" where
  "dispose rec this s =
     (case kind (nodes s this) of
        SignalK \<Rightarrow> Some (Ok Undefined (baseDispose this s))
      | ComputedK \<Rightarrow>
          Some (Ok Undefined
            (baseDispose this (upd this (\<lambda>nd. nd\<lparr>computedFlag := False, stale := True\<rparr>) s)))
      | EffectK \<Rightarrow>
          if disposed (nodes s this) then Some (Ok Undefined s)
          else bind (runCleanup rec this (upd this (\<lambda>nd. nd\<lparr>disposed := True\<rparr>) s))
                    (\<lambda>_ s1. Some (Ok Undefined (baseDispose this s1))))"

definition emptyGraph :: rstate where
  "emptyGraph =
     \<lparr>nodes = (\<lambda>_. \<lparr>kind = SignalK, subscribers = [], dependencies = [], stale = False,
                     nvalue = Undefined, computedFlag = False, body = Const Undefined,
                     returnsCleanup = None, cleanup = None, disposed = False\<rparr>),
      nextNode = 0, currentObserver = None, observerStack = [], batchDepth = 0,
      batchedSignals = [], calls = []\<rparr>"

section \<open>Observations and scenarios\<close>

text \<open>Counting in an event list: how often a phase was executed, how often a system's
  function was invoked, and which systems were invoked, in order.\<close>

definition isPhaseRun :: "SystemPhase \<Rightarrow> event \<Rightarrow> bool" where
  "isPhaseRun p e = (case e of PhaseExecuted q _ \<Rightarrow> q = p | SystemInvoked _ _ \<Rightarrow> False)"

definition phaseRuns :: "SystemPhase \<Rightarrow> event list \<Rightarrow> nat" where
  "phaseRuns p evs = length (filter (isPhaseRun p) evs)"

definition invocations :: "SystemId \<Rightarrow> event list \<Rightarrow> nat" where
  "invocations i evs =
     length (filter (\<lambda>e. case e of SystemInvoked j _ \<Rightarrow> j = i | PhaseExecuted _ _ \<Rightarrow> False) evs)"

fun invokedIds :: "event list \<Rightarrow> SystemId list" where
  "invokedIds [] = []"
| "invokedIds (SystemInvoked i _ # evs) = i # invokedIds evs"
| "invokedIds (PhaseExecuted _ _ # evs) = invokedIds evs"

definition enabledIn :: "(SystemId \<times> System) list \<Rightarrow> SystemId \<Rightarrow> bool" where
  "enabledIn syss i = (case map_of syss i of Some s \<Rightarrow> enabled s | None \<Rightarrow> False)"

text \<open>Every system is stored under its own id, as \<open>SystemScheduler.add\<close> stores it.\<close>

definition keyed :: "(SystemId \<times> System) list \<Rightarrow> bool" where
  "keyed syss = (\<forall>k s. map_of syss k = Some s \<longrightarrow> sysId s = k)"

text \<open>How the error of a failing system is resolved, in the words of the specification:
  by the system's own handler if it has one, else by the phase-level handler, which is
  also the one that receives what the system's own handler throws; without any handler
  nothing is decided. A handler sees the failure counter already incremented. The
  resolution is the strategy returned (if any), or what the last handler called throws.\<close>

definition phaseLevel :: "SystemErrorHandler option \<Rightarrow> SystemErrorContext \<Rightarrow> handler_result" where
  "phaseLevel phaseHandler errorCtx =
     (case phaseHandler of Some h \<Rightarrow> h errorCtx | None \<Rightarrow> HandlerReturns None)"

definition resolution :: "System \<Rightarrow> SystemErrorHandler option \<Rightarrow> SystemPhase \<Rightarrow> jserror
      \<Rightarrow> handler_result" where
  "resolution s phaseHandler ph e =
     (let errorCtx = \<lparr>errSystemId = sysId s, error = e, errPhase = ph,
                       errConsecutiveFailures = consecutiveFailures s + 1\<rparr>
      in case onError s of
           Some own \<Rightarrow>
             (case own errorCtx of
                HandlerReturns r \<Rightarrow> HandlerReturns r
              | HandlerThrows thrown \<Rightarrow> phaseLevel phaseHandler (errorCtx\<lparr>error := thrown\<rparr>))
         | None \<Rightarrow> phaseLevel phaseHandler errorCtx)"

text \<open>What the resolution means for the dispatch: the error that leaves it.\<close>

definition escaping :: "handler_result \<Rightarrow> jserror option" where
  "escaping r = (case r of HandlerThrows thrown \<Rightarrow> Some thrown | HandlerReturns _ \<Rightarrow> None)"

text \<open>A phase-level handler that returns whatever it is given (or is absent).\<close>

definition alwaysReturns :: "SystemErrorHandler option \<Rightarrow> bool" where
  "alwaysReturns phaseHandler =
     (case phaseHandler of None \<Rightarrow> True | Some h \<Rightarrow> \<forall>c. \<exists>r. h c = HandlerReturns r)"

text \<open>The accumulator after \<open>j\<close> drains of \<open>ts\<close>, and a clock after \<open>j\<close> advances by
  \<open>ts\<close>, each step rounded as the code's \<open>-=\<close> and \<open>+=\<close> round it.\<close>

primrec drained :: "number \<Rightarrow> nat \<Rightarrow> number \<Rightarrow> number" where
  "drained ts 0 a = a"
| "drained ts (Suc j) a = drained ts j (numSub a ts)"

primrec advanced :: "number \<Rightarrow> nat \<Rightarrow> number \<Rightarrow> number" where
  "advanced ts 0 t = t"
| "advanced ts (Suc j) t = advanced ts j (numAdd t ts)"

text \<open>A system as \<open>defineSystem\<close> builds it from a descriptor without \<open>enabled\<close>
  and \<open>onError\<close> (the \<open>System\<close> constructor's defaults), for a function that
  returns (\<open>None\<close>) or always throws the given error.\<close>

definition plainSystem :: "SystemId \<Rightarrow> SystemPhase list \<Rightarrow> int \<Rightarrow> SystemId list \<Rightarrow> SystemId list
      \<Rightarrow> jserror option \<Rightarrow> System" where
  "plainSystem i phs prio befores afters throwing =
     \<lparr>sysId = i, phases = phs, priority = prio, runBefore = befores, runAfter = afters,
      onError = None, enabled = True,
      fn = (\<lambda>_. case throwing of None \<Rightarrow> Returns | Some e \<Rightarrow> Throws e),
      consecutiveFailures = 0\<rparr>"

text \<open>A world with one system registered for \<open>fixedUpdate\<close>: with
  \<open>fixedTimestep = 16.67\<close>, with \<open>fixedTimestep = 0.3\<close>, and with the default
  configuration.\<close>

definition tickWorldWith :: "number option \<Rightarrow> World" where
  "tickWorldWith cfgFixedTimestep =
     (newWorld cfgFixedTimestep None None)
       \<lparr>systemScheduler :=
          \<lparr>systems = [(''FixedUpdateSystem'',
                        plainSystem ''FixedUpdateSystem'' [FixedUpdate] 0 [] [] None)],
           executionOrder = [], schedDirty = True\<rparr>\<rparr>"

definition tickWorld :: World where
  "tickWorld = tickWorldWith (Some (roundNumber (1667 / 100)))"

definition tenthsWorld :: World where
  "tenthsWorld = tickWorldWith (Some (roundNumber (3 / 10)))"

definition defaultTickWorld :: World where
  "defaultTickWorld = tickWorldWith None"

text \<open>\<open>n\<close> successive calls \<open>update(dt)\<close>, and a world with \<open>fixedTimestep = 1\<close>.\<close>

primrec updates :: "nat \<Rightarrow> number \<Rightarrow> World \<Rightarrow> World" where
  "updates 0 dt w = w"
| "updates (Suc n) dt w = updates n dt (fst (update dt w))"

definition unitWorld :: World where
  "unitWorld = tickWorldWith (Some (Finite 1))"

text \<open>Two systems of the \<open>update\<close> phase, \<open>A\<close> declaring \<open>runBefore: [B]\<close>, registered
  in either order.\<close>

definition schedulerAB :: SystemScheduler where
  "schedulerAB =
     \<lparr>systems = [(''A'', plainSystem ''A'' [Update] 0 [''B''] [] None),
                 (''B'', plainSystem ''B'' [Update] 0 [] [] None)],
      executionOrder = [], schedDirty = True\<rparr>"

definition schedulerBA :: SystemScheduler where
  "schedulerBA =
     \<lparr>systems = [(''B'', plainSystem ''B'' [Update] 0 [] [] None),
                 (''A'', plainSystem ''A'' [Update] 0 [''B''] [] None)],
      executionOrder = [], schedDirty = True\<rparr>"

text \<open>A system that always throws, registered before one that does not.\<close>

definition failingSystems :: "(SystemId \<times> System) list" where
  "failingSystems =
     [(''Crashing'', plainSystem ''Crashing'' [Update] 0 [] [] (Some (UserError ''Crash''))),
      (''Healthy'', plainSystem ''Healthy'' [Update] 0 [] [] None)]"

text \<open>The same two systems with the first one throwing \<open>null\<close>; a handler that throws;
  and a world with the default configuration holding the former.\<close>

definition nullishSystems :: "(SystemId \<times> System) list" where
  "nullishSystems =
     [(''Crashing'', plainSystem ''Crashing'' [Update] 0 [] [] (Some Nullish)),
      (''Healthy'', plainSystem ''Healthy'' [Update] 0 [] [] None)]"

definition throwingHandler :: SystemErrorHandler where
  "throwingHandler errorCtx = HandlerThrows (UserError ''Handler failed'')"

definition disablingHandler :: SystemErrorHandler where
  "disablingHandler errorCtx = HandlerReturns (Some DISABLE)"

definition nullishWorld :: World where
  "nullishWorld =
     (newWorld None None None)
       \<lparr>systemScheduler := \<lparr>systems = nullishSystems, executionOrder = [], schedDirty = True\<rparr>\<rparr>"

subsection \<open>Store and query observations\<close>

text \<open>The reverse index agrees with the per-entity storage.\<close>

definition indexed :: "ComponentStore \<Rightarrow> bool" where
  "indexed st = (\<forall>e c. (e \<in> set (getEntitiesWithComponent st c)) = has st e c)"

text \<open>What one filter demands of an entity, in the words of the specification.\<close>

definition filterHolds :: "ComponentStore \<Rightarrow> EntityId \<Rightarrow> QueryFilter \<Rightarrow> bool" where
  "filterHolds st e f =
     (case ftype f of
        FAll \<Rightarrow> (\<forall>c \<in> set (fcomponents f). has st e c)
      | FAny \<Rightarrow> (\<exists>c \<in> set (fcomponents f). has st e c)
      | FNone \<Rightarrow> \<not> (\<exists>c \<in> set (fcomponents f). has st e c))"

text \<open>The candidate set while it is still \<open>null\<close> constrains nothing.\<close>

definition oset :: "EntityId list option \<Rightarrow> EntityId set" where
  "oset x = (case x of None \<Rightarrow> UNIV | Some xs \<Rightarrow> set xs)"

text \<open>The innermost step of the narrowing loop of \<open>getCandidateEntities\<close>.\<close>

definition narrowStep :: "ComponentStore \<Rightarrow> ComponentId \<Rightarrow> EntityId list option \<Rightarrow> EntityId list option" where
  "narrowStep st c cands1 =
     (let entities = getEntitiesWithComponent st c
      in case cands1 of
           None \<Rightarrow> Some entities
         | Some cs \<Rightarrow> Some (filter (\<lambda>i. i \<in> set entities) cs))"

text \<open>Every candidate taken from the index is an entity the store knows.\<close>

definition withinKnown :: "ComponentStore \<Rightarrow> EntityId list option \<Rightarrow> bool" where
  "withinKnown st x = (case x of None \<Rightarrow> True | Some xs \<Rightarrow> set xs \<subseteq> set (getAllEntities st))"

text \<open>Components of two types, and a world with entity 1 owning an \<open>A\<close> and entity 2
  owning an \<open>A\<close> and a \<open>B\<close>; then the query \<open>{all: [A, B]}\<close> obtained, executed, and
  a \<open>B\<close> added to entity 1.\<close>

definition compA :: Component where
  "compA = \<lparr>componentId = ''A'', payload = 0, entity = None\<rparr>"

definition compB :: Component where
  "compB = \<lparr>componentId = ''B'', payload = 0, entity = None\<rparr>"

definition abDescriptor :: QueryDescriptor where
  "abDescriptor = \<lparr>allOf = Some [''A'', ''B''], anyOf = None, noneOf = None\<rparr>"

definition twoEntities :: World where
  "twoEntities = fst (snd (createEntity (fst (snd (createEntity (newWorld None None None) 1))) 2))"

definition abWorld :: World where
  "abWorld = projr (addComponent 2 compB (projr (addComponent 2 compA
               (projr (addComponent 1 compA twoEntities)))))"

definition abQueried :: World where
  "abQueried = snd (projr (query abDescriptor abWorld))"

definition abExecuted :: World where
  "abExecuted = snd (the (executeQuery ''all:A,B'' abQueried))"

definition abAdded :: World where
  "abAdded = projr (addComponent 1 compB abExecuted)"

text \<open>A world whose only entity never received a component, and the query
  \<open>{none: [A]}\<close> obtained in it.\<close>

definition noneADescriptor :: QueryDescriptor where
  "noneADescriptor = \<lparr>allOf = None, anyOf = None, noneOf = Some [''A'']\<rparr>"

definition loneWorld :: World where
  "loneWorld = fst (snd (createEntity (newWorld None None None) 1))"

definition loneQueried :: World where
  "loneQueried = snd (projr (query noneADescriptor loneWorld))"

text \<open>A fresh world in which id 1 was taken explicitly and given a component, while the
  counter still stands at its initial value 1.\<close>

definition explicitOne :: World where
  "explicitOne = projr (addComponent 1 compA
                   (snd (projr (createEntityWithId 1 (newWorld None None None)))))"

subsection \<open>Reactive graph observations\<close>

text \<open>A call with a smaller bound on the nesting depth either does not return or returns
  what the call with the larger bound returns.\<close>

definition refines :: "outcome option \<Rightarrow> outcome option \<Rightarrow> bool" where
  "refines m m' = (m = None \<or> m' = m)"

definition methods_le :: "methods \<Rightarrow> methods \<Rightarrow> bool" where
  "methods_le rec rec' = (\<forall>c s. refines (rec c s) (rec' c s))"

text \<open>The symmetry of the two relation sets; the same together with the class of every
  node (fixed by \<open>K\<close>) and the fact that nothing subscribes to an effect; and what it
  means for a call to establish a property of the state it leaves, returning or
  throwing.\<close>

definition sym :: "rstate \<Rightarrow> bool" where
  "sym s = (\<forall>a b. b \<in> set (dependencies (nodes s a)) \<longrightarrow> a \<in> set (subscribers (nodes s b)))"

definition inv :: "(nat \<Rightarrow> kind) \<Rightarrow> rstate \<Rightarrow> bool" where
  "inv K s = (sym s \<and> (\<forall>i. kind (nodes s i) = K i)
              \<and> (\<forall>i. K i = EffectK \<longrightarrow> subscribers (nodes s i) = []))"

definition wellFormed :: "rstate \<Rightarrow> bool" where
  "wellFormed s = (sym s \<and> (\<forall>i. kind (nodes s i) = EffectK \<longrightarrow> subscribers (nodes s i) = []))"

definition post :: "(rstate \<Rightarrow> bool) \<Rightarrow> outcome option \<Rightarrow> bool" where
  "post P m = (case m of None \<Rightarrow> True | Some (Ok _ s) \<Rightarrow> P s | Some (Threw _ s) \<Rightarrow> P s)"

definition methods_keep :: "(rstate \<Rightarrow> bool) \<Rightarrow> methods \<Rightarrow> bool" where
  "methods_keep P rec = (\<forall>c s. P s \<longrightarrow> post P (rec c s))"

text \<open>The state a call leaves behind (the given state if it does not return).\<close>

definition stateAfter :: "outcome option \<Rightarrow> rstate \<Rightarrow> rstate" where
  "stateAfter r fallback =
     (case r of Some (Ok _ g) \<Rightarrow> g | Some (Threw _ g) \<Rightarrow> g | None \<Rightarrow> fallback)"

text \<open>The diamond: signal \<open>s = 1\<close> (node 0), \<open>b = s * 2\<close> (node 1), \<open>c = s + 1\<close>
  (node 2), \<open>d = b + c\<close> (node 3) and an effect (node 4) that reads \<open>d\<close> and calls
  spy 0. Then the states after \<open>batch(() => { s.set(2) })\<close>, after the \<open>s.set(2)\<close>
  inside a batch that has not ended yet, and after a batch that nests that batch and
  then calls spy 1.\<close>

definition diamondNodes :: rstate where
  "diamondNodes =
     snd (computed (Add (Get 1) (Get 2))
       (snd (computed (Add (Get 0) (Const (Num 1)))
         (snd (computed (Mul (Get 0) (Const (Num 2)))
           (snd (signal (Num 1) emptyGraph)))))))"

definition diamond :: rstate where
  "diamond = stateAfter (snd (effect (exec 3) (Seq (Get 3) (Spy 0)) None diamondNodes)) diamondNodes"

definition diamondSet :: rstate where
  "diamondSet =
     stateAfter (batch (exec 4) (eval (exec 4) (SetSig 0 (Const (Num 2)))) diamond) diamond"

definition diamondInBatch :: rstate where
  "diamondInBatch =
     stateAfter (eval (exec 1) (SetSig 0 (Const (Num 2))) (diamond\<lparr>batchDepth := 1\<rparr>)) diamond"

definition diamondNested :: rstate where
  "diamondNested =
     stateAfter (batch (exec 4) (eval (exec 4) (Seq (BatchE (SetSig 0 (Const (Num 2)))) (Spy 1)))
                   diamond) diamond"

text \<open>A signal (node 0) holding \<open>v\<close> and an effect (node 1) that reads it and calls
  spy 0.\<close>

definition watchedNodes :: "jsval \<Rightarrow> rstate" where
  "watchedNodes v = snd (signal v emptyGraph)"

definition watched :: "jsval \<Rightarrow> rstate" where
  "watched v =
     stateAfter (snd (effect (exec 2) (Seq (Get 0) (Spy 0)) None (watchedNodes v))) (watchedNodes v)"

text \<open>A signal (node 0), a computed reading it (node 1) and an effect reading the
  computed (node 2); then the computed disposed.\<close>

definition chainNodes :: rstate where
  "chainNodes = snd (computed (Mul (Get 0) (Const (Num 2))) (snd (signal (Num 1) emptyGraph)))"

definition chain :: rstate where
  "chain = stateAfter (snd (effect (exec 3) (Seq (Get 1) (Spy 0)) None chainNodes)) chainNodes"

definition chainDisposed :: rstate where
  "chainDisposed = stateAfter (dispose (exec 3) 1 chain) chain"

section \<open>Properties of the scheduler and the tick\<close>

subsection \<open>Evaluating number arithmetic\<close>

lemma expUp_numeral:
  "expUp (numeral k) a = (if a \<ge> 2 then 1 + expUp (pred_numeral k) (a / 2) else 0)"
  by (simp add: numeral_eq_Suc)

lemma expDown_numeral:
  "expDown (numeral k) a = (if a < 1 then expDown (pred_numeral k) (a * 2) - 1 else 0)"
  by (simp add: numeral_eq_Suc)

lemma floor_numeral_quot: "\<lfloor>numeral a / numeral b :: rat\<rfloor> = numeral a div numeral b"
  using floor_divide_of_int_eq[of "numeral a" "numeral b", where ?'a = rat] by simp

lemmas number_eval = roundNumber_def roundAt_def assemble_def roundEven_def tieEven_def
  exponent_def pow2_def numSub_def numGe_def expUp_numeral expDown_numeral floor_numeral_quot

text \<open>The literals \<open>16.67\<close>, \<open>0.3\<close>, \<open>1.2\<close> and the quotient \<open>1000 / 60\<close> as
  numbers (\<open>0x1.0ab851eb851ecp+4\<close>, \<open>0x1.3333333333333p-2\<close>,
  \<open>0x1.3333333333333p+0\<close>, \<open>0x1.0aaaaaaaaaaabp+4\<close>), and \<open>0.1 + 0.2\<close>.\<close>

lemma number_literals:
  "roundNumber (1667 / 100) = Finite (1173046965441659 / 70368744177664)"
  "roundNumber (3 / 10) = Finite (5404319552844595 / 18014398509481984)"
  "roundNumber (12 / 10) = Finite (5404319552844595 / 4503599627370496)"
  "roundNumber (1000 / 60) = Finite (4691249611844267 / 281474976710656)"
  "numAdd (roundNumber (1 / 10)) (roundNumber (2 / 10)) = Finite (1351079888211149 / 4503599627370496)"
  by (simp_all add: number_eval)

subsection \<open>Events of a dispatch\<close>

lemma phaseRuns_append [simp]: "phaseRuns p (xs @ ys) = phaseRuns p xs + phaseRuns p ys"
  by (simp add: phaseRuns_def)

lemma phaseRuns_Nil [simp]: "phaseRuns p [] = 0"
  by (simp add: phaseRuns_def)

lemma phaseRuns_Cons [simp]:
  "phaseRuns p (e # evs) = (if isPhaseRun p e then 1 else 0) + phaseRuns p evs"
  by (simp add: phaseRuns_def)

lemma run_no_phase: "phaseRuns p (fst (snd (run s ctx))) = 0"
  by (simp add: run_def isPhaseRun_def Let_def
           split: fn_result.splits option.splits handler_result.splits)

lemma dispatch_no_phase: "phaseRuns p (fst (snd (dispatch ph ctx h i syss))) = 0"
proof (cases "map_of syss i")
  case None
  then show ?thesis by (simp add: dispatch_def)
next
  case (Some s)
  obtain s1 evs err where r: "run s (ctx\<lparr>phase := ph\<rparr>) = (s1, evs, err)"
    using prod_cases3 by blast
  with run_no_phase[of p s "ctx\<lparr>phase := ph\<rparr>"] have "phaseRuns p evs = 0" by simp
  with Some r show ?thesis
    by (simp add: dispatch_def Let_def split: option.splits handler_result.splits)
qed

lemma phaseLoop_no_phase:
  "phaseLoop ph ctx h ids syss = (syss1, evs, err) \<Longrightarrow> phaseRuns p evs = 0"
proof (induction ids arbitrary: syss syss1 evs err)
  case Nil
  then show ?case by simp
next
  case (Cons i ids)
  obtain sa ea erra where d: "dispatch ph ctx h i syss = (sa, ea, erra)"
    using prod_cases3 by blast
  from dispatch_no_phase[of p ph ctx h i syss] d have ea: "phaseRuns p ea = 0" by simp
  show ?case
  proof (cases erra)
    case (Some e)
    with Cons.prems d ea show ?thesis by simp
  next
    case None
    obtain sb eb errb where l: "phaseLoop ph ctx h ids sa = (sb, eb, errb)"
      using prod_cases3 by blast
    from Cons.IH[OF l] have "phaseRuns p eb = 0" .
    with ea Cons.prems d l None show ?thesis by auto
  qed
qed

lemma executePhase_runs:
  assumes "executePhase ph ctx h sch = (sch1, evs, None)"
  shows "phaseRuns p evs = (if p = ph then 1 else 0)"
  using assms
  by (auto simp: executePhase_def Let_def isPhaseRun_def phaseLoop_no_phase
           split: prod.splits option.splits if_splits)

lemma invokedIds_append [simp]: "invokedIds (xs @ ys) = invokedIds xs @ invokedIds ys"
  by (induction xs rule: invokedIds.induct) simp_all

subsection \<open>The fixed-step loop\<close>

lemma fixedLoop_spec:
  assumes "fixedLoop w n evs = (w', n', evs', None)"
  shows "n \<le> n'
       \<and> fixedTime w' = advanced (fixedTimestep (config w)) (n' - n) (fixedTime w)
       \<and> accumulator w' = drained (fixedTimestep (config w)) (n' - n) (accumulator w)
       \<and> phaseRuns p evs' = phaseRuns p evs + (if p = FixedUpdate then n' - n else 0)
       \<and> (\<forall>j < n' - n.
             numGe (drained (fixedTimestep (config w)) j (accumulator w)) (fixedTimestep (config w))
           \<and> int (n + j) < maxFixedUpdates (config w))
       \<and> \<not> (numGe (accumulator w') (fixedTimestep (config w)) \<and> int n' < maxFixedUpdates (config w))
       \<and> time w' = time w \<and> config w' = config w \<and> paused w' = paused w"
  using assms
proof (induction w n evs rule: fixedLoop.induct)
  case (1 w n evs)
  let ?ts = "fixedTimestep (config w)"
  let ?cap = "maxFixedUpdates (config w)"
  show ?case
  proof (cases "numGe (accumulator w) ?ts \<and> int n < ?cap")
    case False
    with "1.prems" have "w' = w" "n' = n" "evs' = evs"
      by (simp_all add: fixedLoop.simps[of w n evs] Let_def)
    with False show ?thesis by simp
  next
    case True
    obtain sch1 evs1 err where ex: "executePhase FixedUpdate
        \<lparr>deltaTime = ?ts, ctxTime = fixedTime w, phase = FixedUpdate\<rparr>
        (Some (errorHandler w)) (systemScheduler w) = (sch1, evs1, err)"
      using prod_cases3 by blast
    from True ex "1.prems" have err: "err = None"
      by (cases err) (simp_all add: fixedLoop.simps[of w n evs] Let_def)
    let ?w2 = "w\<lparr>systemScheduler := sch1, accumulator := numSub (accumulator w) ?ts,
                  fixedTime := numAdd (fixedTime w) ?ts\<rparr>"
    from True ex err "1.prems" have rec: "fixedLoop ?w2 (Suc n) (evs @ evs1) = (w', n', evs', None)"
      by (simp add: fixedLoop.simps[of w n evs] Let_def)
    have runs1: "phaseRuns p evs1 = (if p = FixedUpdate then 1 else 0)"
      using executePhase_runs[OF ex[unfolded err]] by simp
    note IH = "1.IH"[OF refl _ ex[symmetric] refl err rec]
    from IH True have ih: "Suc n \<le> n'"
      "fixedTime w' = advanced ?ts (n' - Suc n) (fixedTime ?w2)"
      "accumulator w' = drained ?ts (n' - Suc n) (accumulator ?w2)"
      "phaseRuns p evs' = phaseRuns p (evs @ evs1) + (if p = FixedUpdate then n' - Suc n else 0)"
      "\<forall>j < n' - Suc n. numGe (drained ?ts j (accumulator ?w2)) ?ts \<and> int (Suc n + j) < ?cap"
      "\<not> (numGe (accumulator w') ?ts \<and> int n' < ?cap)"
      "time w' = time w" "config w' = config w" "paused w' = paused w"
      by simp_all
    from ih(1) have k: "n' - n = Suc (n' - Suc n)" by simp
    have a: "fixedTime w' = advanced ?ts (n' - n) (fixedTime w)"
      using ih(2) by (simp add: k)
    have b: "accumulator w' = drained ?ts (n' - n) (accumulator w)"
      using ih(3) by (simp add: k)
    have c: "phaseRuns p evs' = phaseRuns p evs + (if p = FixedUpdate then n' - n else 0)"
      using ih(4) runs1 k by simp
    have d: "\<forall>j < n' - n. numGe (drained ?ts j (accumulator w)) ?ts \<and> int (n + j) < ?cap"
    proof (intro allI impI)
      fix j assume j: "j < n' - n"
      show "numGe (drained ?ts j (accumulator w)) ?ts \<and> int (n + j) < ?cap"
      proof (cases j)
        case 0
        with True show ?thesis by simp
      next
        case (Suc i)
        with j k have "i < n' - Suc n" by simp
        with ih(5) have "numGe (drained ?ts i (accumulator ?w2)) ?ts \<and> int (Suc n + i) < ?cap"
          by blast
        with Suc show ?thesis by simp
      qed
    qed
    from ih(1) a b c d ih(6-9) show ?thesis by simp
  qed
qed

lemma fixedLoop_frame:
  "time (fst (fixedLoop w n evs)) = time w \<and> paused (fst (fixedLoop w n evs)) = paused w"
proof (induction w n evs rule: fixedLoop.induct)
  case (1 w fixedUpdates evs)
  show ?case
    using "1.IH"
    by (subst (1 2) fixedLoop.simps) (auto simp: Let_def split: prod.splits option.splits)
qed

lemma update_time:
  "time (fst (update dt w)) = (if paused w then time w else numAdd (time w) dt)"
  using fixedLoop_frame[of "w\<lparr>time := numAdd (time w) dt, accumulator := numAdd (accumulator w) dt\<rparr>"
      0 "[]"]
  by (auto simp: update_def Let_def split: prod.splits option.splits)

lemma update_paused_flag: "paused (fst (update dt w)) = paused w"
  using fixedLoop_frame[of "w\<lparr>time := numAdd (time w) dt, accumulator := numAdd (accumulator w) dt\<rparr>"
      0 "[]"]
  by (auto simp: update_def Let_def split: prod.splits option.splits)

lemma update_spec:
  assumes np: "\<not> paused w" and up: "update dt w = (w', evs, None)"
  shows "time w' = numAdd (time w) dt"
    and "fixedTime w' = advanced (fixedTimestep (config w)) (phaseRuns FixedUpdate evs) (fixedTime w)"
    and "\<forall>j < phaseRuns FixedUpdate evs.
            numGe (drained (fixedTimestep (config w)) j (numAdd (accumulator w) dt))
                  (fixedTimestep (config w))
          \<and> int j < maxFixedUpdates (config w)"
    and "\<not> (numGe (drained (fixedTimestep (config w)) (phaseRuns FixedUpdate evs)
                        (numAdd (accumulator w) dt))
                  (fixedTimestep (config w))
            \<and> int (phaseRuns FixedUpdate evs) < maxFixedUpdates (config w))"
    and "accumulator w' =
           (if maxFixedUpdates (config w) \<le> int (phaseRuns FixedUpdate evs) then Finite 0
            else drained (fixedTimestep (config w)) (phaseRuns FixedUpdate evs)
                   (numAdd (accumulator w) dt))"
proof -
  let ?w1 = "w\<lparr>time := numAdd (time w) dt, accumulator := numAdd (accumulator w) dt\<rparr>"
  obtain w2 k evs0 err0 where fl: "fixedLoop ?w1 0 [] = (w2, k, evs0, err0)"
    using prod_cases4 by blast
  from np up fl have err0: "err0 = None"
    by (cases err0) (simp_all add: update_def Let_def)
  let ?w3 = "if maxFixedUpdates (config w2) \<le> int k then w2\<lparr>accumulator := Finite 0\<rparr> else w2"
  obtain sch1 evs1 err1 where e1: "executePhase Update
      \<lparr>deltaTime = dt, ctxTime = time ?w3, phase = Update\<rparr> (Some (errorHandler ?w3))
      (systemScheduler ?w3) = (sch1, evs1, err1)"
    using prod_cases3 by blast
  from np up fl err0 e1 have err1: "err1 = None"
    by (cases err1) (simp_all add: update_def Let_def)
  let ?w4 = "?w3\<lparr>systemScheduler := sch1\<rparr>"
  obtain sch2 evs2 err2 where e2: "executePhase LateUpdate
      \<lparr>deltaTime = dt, ctxTime = time ?w4, phase = LateUpdate\<rparr> (Some (errorHandler ?w4))
      (systemScheduler ?w4) = (sch2, evs2, err2)"
    using prod_cases3 by blast
  from np up fl err0 e1 err1 e2 have res: "w' = ?w4\<lparr>systemScheduler := sch2\<rparr>"
      "evs = evs0 @ evs1 @ evs2" "err2 = None"
    by (simp_all add: update_def Let_def)
  have r1: "phaseRuns FixedUpdate evs1 = 0"
    using executePhase_runs[OF e1[unfolded err1], of FixedUpdate] by simp
  have r2: "phaseRuns FixedUpdate evs2 = 0"
    using executePhase_runs[OF e2[unfolded res(3)], of FixedUpdate] by simp
  note sp = fixedLoop_spec[OF fl[unfolded err0], of FixedUpdate]
  from sp r1 r2 res(2) have k: "phaseRuns FixedUpdate evs = k" by simp
  from sp res(1) show "time w' = numAdd (time w) dt" by (simp split: if_splits)
  from sp res(1) k
  show "fixedTime w' = advanced (fixedTimestep (config w)) (phaseRuns FixedUpdate evs) (fixedTime w)"
    by (simp split: if_splits)
  from sp k show "\<forall>j < phaseRuns FixedUpdate evs.
            numGe (drained (fixedTimestep (config w)) j (numAdd (accumulator w) dt))
                  (fixedTimestep (config w))
          \<and> int j < maxFixedUpdates (config w)" by simp
  from sp k show "\<not> (numGe (drained (fixedTimestep (config w)) (phaseRuns FixedUpdate evs)
                        (numAdd (accumulator w) dt))
                  (fixedTimestep (config w))
            \<and> int (phaseRuns FixedUpdate evs) < maxFixedUpdates (config w))" by simp
  from sp res(1) k show "accumulator w' =
           (if maxFixedUpdates (config w) \<le> int (phaseRuns FixedUpdate evs) then Finite 0
            else drained (fixedTimestep (config w)) (phaseRuns FixedUpdate evs)
                   (numAdd (accumulator w) dt))"
    by (simp split: if_splits)
qed

lemmas tick_defs = update_def fixedLoop.simps executePhase_def recomputeExecutionOrder_def
  topologicalSort_def visit.simps dispatch_def run_def hasPhase_def Let_def
  tickWorld_def tickWorldWith_def plainSystem_def newWorld_def newScheduler_def phaseRuns_def
  isPhaseRun_def invocations_def defaultErrorHandler_def number_eval

lemma tickWorld_built:
  "worldAddSystem (plainSystem ''FixedUpdateSystem'' [FixedUpdate] 0 [] [] None)
     (newWorld (Some (roundNumber (1667 / 100))) None None) = Inr tickWorld"
  by (simp add: worldAddSystem_def addSystem_def tick_defs)


lemma first_tick:
  "phaseRuns FixedUpdate (fst (snd (update (Finite 16) tickWorld))) = 0"
  "invocations ''FixedUpdateSystem'' (fst (snd (update (Finite 16) tickWorld))) = 0"
  "snd (snd (update (Finite 16) tickWorld)) = None"
  "accumulator (fst (update (Finite 16) tickWorld)) = Finite 16"
  by (simp_all add: tick_defs)

lemma second_tick:
  "phaseRuns FixedUpdate (fst (snd (update (Finite 16) (fst (update (Finite 16) tickWorld))))) = 1"
  "invocations ''FixedUpdateSystem''
     (fst (snd (update (Finite 16) (fst (update (Finite 16) tickWorld))))) = 1"
  "snd (snd (update (Finite 16) (fst (update (Finite 16) tickWorld)))) = None"
  "time (fst (update (Finite 16) (fst (update (Finite 16) tickWorld)))) = Finite 32"
  "fixedTime (fst (update (Finite 16) (fst (update (Finite 16) tickWorld))))
     = Finite (1173046965441659 / 70368744177664)"
  "accumulator (fst (update (Finite 16) (fst (update (Finite 16) tickWorld))))
     = Finite (1078752848243589 / 70368744177664)"
  by (simp_all add: tick_defs)

text \<open>
  C7. Fixed-step accumulation. For an unpaused world whose \<open>update(deltaTime)\<close> completes,
  let \<open>k\<close> be the number of times the \<open>fixedUpdate\<close> phase was executed. Then
  \<open>deltaTime\<close> was added to logical time and to the accumulator; fixed time was advanced
  \<open>k\<close> times by the fixed timestep; before each of the \<open>k\<close> runs the accumulator (after
  the drains made so far) was at least the fixed timestep and the cap \<open>maxFixedUpdates\<close>
  was not reached; the runs stopped only when one of the two failed; and the accumulator is
  left at zero if the cap was hit, else at what the \<open>k\<close> drains left. Every sum and
  difference is the number the code computes. With \<open>fixedTimestep = 16.67\<close> the
  first \<open>update(16)\<close> executes no \<open>fixedUpdate\<close> (the registered system is not invoked)
  and the second executes it exactly once (the system is invoked once).
\<close>

theorem fixed_step_accumulation:
  "(\<not> paused w \<and> update dt w = (w', evs, None) \<longrightarrow>
      time w' = numAdd (time w) dt
    \<and> fixedTime w' = advanced (fixedTimestep (config w)) (phaseRuns FixedUpdate evs) (fixedTime w)
    \<and> (\<forall>j < phaseRuns FixedUpdate evs.
          numGe (drained (fixedTimestep (config w)) j (numAdd (accumulator w) dt))
                (fixedTimestep (config w))
        \<and> int j < maxFixedUpdates (config w))
    \<and> \<not> (numGe (drained (fixedTimestep (config w)) (phaseRuns FixedUpdate evs)
                      (numAdd (accumulator w) dt))
                (fixedTimestep (config w))
          \<and> int (phaseRuns FixedUpdate evs) < maxFixedUpdates (config w))
    \<and> accumulator w' =
        (if maxFixedUpdates (config w) \<le> int (phaseRuns FixedUpdate evs) then Finite 0
         else drained (fixedTimestep (config w)) (phaseRuns FixedUpdate evs)
                (numAdd (accumulator w) dt)))
   \<and> phaseRuns FixedUpdate (fst (snd (update (Finite 16) tickWorld))) = 0
   \<and> invocations ''FixedUpdateSystem'' (fst (snd (update (Finite 16) tickWorld))) = 0
   \<and> phaseRuns FixedUpdate (fst (snd (update (Finite 16) (fst (update (Finite 16) tickWorld))))) = 1
   \<and> invocations ''FixedUpdateSystem''
        (fst (snd (update (Finite 16) (fst (update (Finite 16) tickWorld))))) = 1"
proof (intro conjI impI)
  assume h: "\<not> paused w \<and> update dt w = (w', evs, None)"
  then have np: "\<not> paused w" and up: "update dt w = (w', evs, None)" by simp_all
  note sp = update_spec[OF np up]
  show "time w' = numAdd (time w) dt" by (rule sp(1))
  show "fixedTime w' = advanced (fixedTimestep (config w)) (phaseRuns FixedUpdate evs) (fixedTime w)"
    by (rule sp(2))
  show "\<forall>j < phaseRuns FixedUpdate evs.
          numGe (drained (fixedTimestep (config w)) j (numAdd (accumulator w) dt))
                (fixedTimestep (config w))
        \<and> int j < maxFixedUpdates (config w)" by (rule sp(3))
  show "\<not> (numGe (drained (fixedTimestep (config w)) (phaseRuns FixedUpdate evs)
                      (numAdd (accumulator w) dt))
                (fixedTimestep (config w))
          \<and> int (phaseRuns FixedUpdate evs) < maxFixedUpdates (config w))" by (rule sp(4))
  show "accumulator w' =
        (if maxFixedUpdates (config w) \<le> int (phaseRuns FixedUpdate evs) then Finite 0
         else drained (fixedTimestep (config w)) (phaseRuns FixedUpdate evs)
                (numAdd (accumulator w) dt))"
    by (rule sp(5))
qed (simp_all add: first_tick second_tick)

text \<open>The second \<open>update(16)\<close> of the scenario: one drain, which leaves
  \<open>15.329999999999998\<close>, and fixed time at the number \<open>16.67\<close>.\<close>

theorem fixed_step_accumulation_witness:
  "\<not> paused (fst (update (Finite 16) tickWorld))
   \<and> update (Finite 16) (fst (update (Finite 16) tickWorld))
       = (fst (update (Finite 16) (fst (update (Finite 16) tickWorld))),
          fst (snd (update (Finite 16) (fst (update (Finite 16) tickWorld)))), None)
   \<and> phaseRuns FixedUpdate (fst (snd (update (Finite 16) (fst (update (Finite 16) tickWorld))))) = 1
   \<and> time (fst (update (Finite 16) (fst (update (Finite 16) tickWorld)))) = Finite 32
   \<and> fixedTime (fst (update (Finite 16) (fst (update (Finite 16) tickWorld))))
       = Finite (1173046965441659 / 70368744177664)
   \<and> numGe (Finite 32) (Finite (1173046965441659 / 70368744177664))
   \<and> \<not> numGe (Finite (1078752848243589 / 70368744177664)) (Finite (1173046965441659 / 70368744177664))
   \<and> accumulator (fst (update (Finite 16) (fst (update (Finite 16) tickWorld))))
       = Finite (1078752848243589 / 70368744177664)"
proof -
  let ?w1 = "fst (update (Finite 16) tickWorld)"
  let ?w2 = "fst (update (Finite 16) ?w1)"
  let ?evs = "fst (snd (update (Finite 16) ?w1))"
  have np: "\<not> paused ?w1"
    by (simp add: update_paused_flag tickWorld_def tickWorldWith_def newWorld_def)
  have up: "update (Finite 16) ?w1 = (?w2, ?evs, None)"
    using second_tick(3) by (metis prod.collapse)
  have w1: "time ?w1 = Finite 16" "fixedTime ?w1 = Finite 0" "accumulator ?w1 = Finite 16"
    "fixedTimestep (config ?w1) = Finite (1173046965441659 / 70368744177664)"
    "maxFixedUpdates (config ?w1) = 5"
    by (simp_all add: tick_defs)
  from fixed_step_accumulation[where w = ?w1 and dt = "Finite 16" and w' = ?w2 and evs = ?evs] np up
  show ?thesis by (simp add: w1 second_tick number_eval)
qed

text \<open>The rounding of each step decides the number of runs. With
  \<open>fixedTimestep = 0.3\<close>, \<open>update(1.2)\<close> runs \<open>fixedUpdate\<close> three times and leaves
  \<open>0.2999999999999999\<close>; with the default timestep, \<open>update(50)\<close> runs it twice and
  leaves \<open>16.66666666666666\<close>; with \<open>fixedTimestep = 1\<close>, ten calls \<open>update(0.1)\<close>
  run it not once and leave \<open>0.9999999999999999\<close>.\<close>

lemma updates_numeral:
  "updates (numeral k) dt w = updates (pred_numeral k) dt (fst (update dt w))"
  by (simp add: numeral_eq_Suc)

lemma rounded_ticks:
  "phaseRuns FixedUpdate (fst (snd (update (roundNumber (12 / 10)) tenthsWorld))) = 3"
  "accumulator (fst (update (roundNumber (12 / 10)) tenthsWorld))
     = Finite (5404319552844593 / 18014398509481984)"
  "phaseRuns FixedUpdate (fst (snd (update (Finite 50) defaultTickWorld))) = 2"
  "accumulator (fst (update (Finite 50) defaultTickWorld))
     = Finite (4691249611844265 / 281474976710656)"
  "fixedTime (updates 10 (roundNumber (1 / 10)) unitWorld) = Finite 0"
  "accumulator (updates 10 (roundNumber (1 / 10)) unitWorld)
     = Finite (9007199254740991 / 9007199254740992)"
  by (simp_all add: tick_defs tenthsWorld_def defaultTickWorld_def unitWorld_def updates_numeral)

text \<open>
  C10. While the world is paused, \<open>update(deltaTime)\<close> does nothing: the world is returned
  as it was (so logical time, fixed time and the accumulator are unchanged), no phase is
  executed and no system invoked. Across \<open>update(a); pause(); update(b); resume();
  update(c)\<close> on an unpaused world, logical time advances by \<open>a\<close> and then by \<open>c\<close>
  only.
\<close>

theorem paused_update_is_noop:
  "(paused w \<longrightarrow> update dt w = (w, [], None)
      \<and> getTime (fst (update dt w)) = getTime w
      \<and> getFixedTime (fst (update dt w)) = getFixedTime w
      \<and> accumulator (fst (update dt w)) = accumulator w)
   \<and> (\<not> paused w \<longrightarrow>
        getTime (fst (update c (resume (fst (update b (pause (fst (update a w))))))))
          = numAdd (numAdd (getTime w) a) c)"
  by (simp add: update_time update_paused_flag getTime_def pause_def resume_def)
     (simp add: update_def)

theorem paused_update_is_noop_witness:
  "paused (pause tickWorld)
   \<and> update (Finite 16) (pause tickWorld) = (pause tickWorld, [], None)
   \<and> \<not> paused tickWorld
   \<and> getTime (fst (update (Finite 16) (resume (fst (update (Finite 100)
                 (pause (fst (update (Finite 16) tickWorld)))))))) = Finite 32"
proof -
  have p: "paused (pause tickWorld)" by (simp add: pause_def)
  have np: "\<not> paused tickWorld" by (simp add: tickWorld_def tickWorldWith_def newWorld_def)
  have t0: "getTime tickWorld = Finite 0"
    by (simp add: getTime_def tickWorld_def tickWorldWith_def newWorld_def)
  have ar: "numAdd (numAdd (Finite 0) (Finite 16)) (Finite 16) = Finite 32"
    by (simp add: number_eval)
  from paused_update_is_noop[where w = "pause tickWorld" and dt = "Finite 16"]
    paused_update_is_noop[where w = tickWorld and a = "Finite 16" and b = "Finite 100"
      and c = "Finite 16"] p np t0 ar
  show ?thesis by simp
qed

subsection \<open>Failure containment\<close>

lemma dispatch_other:
  "j \<noteq> i \<Longrightarrow> map_of (fst (dispatch ph ctx h i syss)) j = map_of syss j"
  by (auto simp: dispatch_def Let_def update_conv'
           split: option.splits prod.splits handler_result.splits)

lemma run_sysId: "sysId (fst (run s ctx)) = sysId s"
  by (simp add: run_def Let_def split: fn_result.splits option.splits handler_result.splits)

lemma dispatch_keyed:
  assumes "keyed syss"
  shows "keyed (fst (dispatch ph ctx h i syss))"
proof (cases "map_of syss i")
  case None
  with assms show ?thesis by (simp add: dispatch_def)
next
  case (Some s)
  obtain s1 evs err where r: "run s (ctx\<lparr>phase := ph\<rparr>) = (s1, evs, err)"
    using prod_cases3 by blast
  with run_sysId[of s "ctx\<lparr>phase := ph\<rparr>"] have "sysId s1 = sysId s" by simp
  moreover from assms Some have "sysId s = i" by (simp add: keyed_def)
  ultimately show ?thesis
    using assms Some r
    by (auto simp: dispatch_def keyed_def Let_def update_conv'
             split: option.splits handler_result.splits)
qed

lemma dispatch_invoked:
  assumes "keyed syss"
  shows "invokedIds (fst (snd (dispatch ph ctx h i syss))) = (if enabledIn syss i then [i] else [])"
proof (cases "map_of syss i")
  case None
  then show ?thesis by (simp add: dispatch_def enabledIn_def)
next
  case (Some s)
  with assms have "sysId s = i" by (simp add: keyed_def)
  with Some show ?thesis
    by (auto simp: dispatch_def enabledIn_def run_def Let_def
             split: option.splits fn_result.splits handler_result.splits)
qed

lemma phaseLoop_invoked:
  assumes "keyed syss" and "distinct ids" and "snd (snd (phaseLoop ph ctx h ids syss)) = None"
  shows "invokedIds (fst (snd (phaseLoop ph ctx h ids syss))) = filter (enabledIn syss) ids"
  using assms
proof (induction ids arbitrary: syss)
  case Nil
  then show ?case by simp
next
  case (Cons i ids)
  obtain syss1 evs1 err1 where d: "dispatch ph ctx h i syss = (syss1, evs1, err1)"
    using prod_cases3 by blast
  obtain syss2 evs2 err2 where l: "phaseLoop ph ctx h ids syss1 = (syss2, evs2, err2)"
    using prod_cases3 by blast
  from Cons.prems(3) d have e1: "err1 = None" by (cases err1) simp_all
  with Cons.prems(3) d l have e2: "err2 = None" by simp
  from dispatch_keyed[OF Cons.prems(1), of ph ctx h i] d have k1: "keyed syss1" by simp
  from Cons.prems(2) have dis: "distinct ids" and notin: "i \<notin> set ids" by simp_all
  have same: "enabledIn syss1 j = enabledIn syss j" if "j \<in> set ids" for j
  proof -
    from that notin have "j \<noteq> i" by auto
    from dispatch_other[OF this, of ph ctx h syss] d have "map_of syss1 j = map_of syss j" by simp
    then show ?thesis by (simp add: enabledIn_def)
  qed
  have "invokedIds evs2 = filter (enabledIn syss1) ids"
    using Cons.IH[OF k1 dis] l e2 by simp
  also have "\<dots> = filter (enabledIn syss) ids"
    using same by (auto intro: filter_cong)
  finally have "invokedIds evs2 = filter (enabledIn syss) ids" .
  moreover have "invokedIds evs1 = (if enabledIn syss i then [i] else [])"
    using dispatch_invoked[OF Cons.prems(1), of ph ctx h i] d by simp
  ultimately show ?case using d l e1 by simp
qed

lemma dispatch_returns:
  assumes "alwaysReturns h"
  shows "snd (snd (dispatch ph ctx h i syss)) = None"
proof (cases h)
  case None
  then show ?thesis
    by (simp add: dispatch_def split: option.splits prod.splits)
next
  case (Some f)
  with assms have r: "\<And>c. \<exists>r. f c = HandlerReturns r" by (simp add: alwaysReturns_def)
  show ?thesis
  proof (cases "map_of syss i")
    case None
    then show ?thesis by (simp add: dispatch_def)
  next
    case s: (Some s)
    obtain s1 evs err where run: "run s (ctx\<lparr>phase := ph\<rparr>) = (s1, evs, err)"
      using prod_cases3 by blast
    show ?thesis
    proof (cases err)
      case None
      with s run show ?thesis by (simp add: dispatch_def)
    next
      case (Some e)
      from r obtain res where "f \<lparr>errSystemId = sysId s1, error = e, errPhase = ph,
          errConsecutiveFailures = consecutiveFailures s1\<rparr> = HandlerReturns res" by blast
      with s run Some \<open>h = Some f\<close> show ?thesis by (simp add: dispatch_def)
    qed
  qed
qed

lemma phaseLoop_returns:
  assumes "alwaysReturns h"
  shows "snd (snd (phaseLoop ph ctx h ids syss)) = None"
proof (induction ids arbitrary: syss)
  case Nil
  then show ?case by simp
next
  case (Cons i ids)
  obtain syss1 evs1 err1 where d: "dispatch ph ctx h i syss = (syss1, evs1, err1)"
    using prod_cases3 by blast
  with dispatch_returns[OF assms, of ph ctx i syss] have e1: "err1 = None" by simp
  obtain syss2 evs2 err2 where l: "phaseLoop ph ctx h ids syss1 = (syss2, evs2, err2)"
    using prod_cases3 by blast
  with Cons.IH[of syss1] have "err2 = None" by simp
  with d e1 l show ?case by simp
qed

lemma phaseLoop_stops:
  "snd (snd (dispatch ph ctx h i syss)) \<noteq> None
   \<Longrightarrow> phaseLoop ph ctx h (i # ids) syss = dispatch ph ctx h i syss"
  by (cases "dispatch ph ctx h i syss" rule: prod_cases3) auto

lemma dispatch_throw:
  assumes "map_of syss i = Some s" and "enabled s" and "fn s (ctx\<lparr>phase := ph\<rparr>) = Throws e"
  shows "(\<exists>s'. map_of (fst (dispatch ph ctx h i syss)) i = Some s'
           \<and> consecutiveFailures s' = consecutiveFailures s + 1
           \<and> enabled s' = (resolution s h ph e \<noteq> HandlerReturns (Some DISABLE)))
         \<and> snd (snd (dispatch ph ctx h i syss)) = escaping (resolution s h ph e)"
  using assms
  by (auto simp: dispatch_def run_def resolution_def phaseLevel_def escaping_def Let_def
                 update_conv'
           split: option.splits handler_result.splits)

lemma dispatch_return:
  assumes "map_of syss i = Some s" and "enabled s" and "fn s (ctx\<lparr>phase := ph\<rparr>) = Returns"
  shows "(\<exists>s'. map_of (fst (dispatch ph ctx h i syss)) i = Some s'
           \<and> consecutiveFailures s' = 0 \<and> enabled s')
         \<and> snd (snd (dispatch ph ctx h i syss)) = None"
  using assms
  by (auto simp: dispatch_def run_def Let_def update_conv' split: option.splits)

lemma dispatch_disabled:
  "enabledIn syss i = False \<Longrightarrow> dispatch ph ctx h i syss = (syss, [], None)"
  by (auto simp: dispatch_def enabledIn_def split: option.splits)

lemmas failing_defs = failingSystems_def nullishSystems_def plainSystem_def dispatch_def run_def
  Let_def defaultErrorHandler_def throwingHandler_def disablingHandler_def resolution_def
  phaseLevel_def escaping_def enabledIn_def keyed_def alwaysReturns_def

text \<open>
  C6, where the code departs from it. The first of two enabled systems of a phase throws.
  With a phase-level handler that itself throws, the counter of the failing system is
  incremented and the loop over the phase ends with the handler's error: the second
  system is not invoked. The same happens with the default handler when the system
  throws \<open>null\<close>, and \<open>world.update\<close> then throws the \<open>TypeError\<close>.
\<close>

theorem handler_throw_ends_phase:
  "enabledIn failingSystems ''Healthy''
   \<and> invokedIds (fst (snd (phaseLoop Update \<lparr>deltaTime = Finite 16, ctxTime = Finite 16, phase = Update\<rparr>
                              (Some throwingHandler) [''Crashing'', ''Healthy''] failingSystems)))
       = [''Crashing'']
   \<and> snd (snd (phaseLoop Update \<lparr>deltaTime = Finite 16, ctxTime = Finite 16, phase = Update\<rparr>
                  (Some throwingHandler) [''Crashing'', ''Healthy''] failingSystems))
       = Some (UserError ''Handler failed'')
   \<and> map_option consecutiveFailures
        (map_of (fst (phaseLoop Update \<lparr>deltaTime = Finite 16, ctxTime = Finite 16, phase = Update\<rparr>
                        (Some throwingHandler) [''Crashing'', ''Healthy''] failingSystems))
                ''Crashing'') = Some 1
   \<and> enabledIn nullishSystems ''Healthy''
   \<and> invokedIds (fst (snd (phaseLoop Update \<lparr>deltaTime = Finite 16, ctxTime = Finite 16, phase = Update\<rparr>
                              (Some defaultErrorHandler) [''Crashing'', ''Healthy''] nullishSystems)))
       = [''Crashing'']
   \<and> snd (snd (phaseLoop Update \<lparr>deltaTime = Finite 16, ctxTime = Finite 16, phase = Update\<rparr>
                  (Some defaultErrorHandler) [''Crashing'', ''Healthy''] nullishSystems))
       = Some TypeError
   \<and> invokedIds (fst (snd (update (Finite 16) nullishWorld))) = [''Crashing'']
   \<and> snd (snd (update (Finite 16) nullishWorld)) = Some TypeError"
  by (simp add: failing_defs nullishWorld_def update_def fixedLoop.simps executePhase_def
        recomputeExecutionOrder_def topologicalSort_def visit.simps hasPhase_def newWorld_def
        newScheduler_def number_eval)

text \<open>
  C6, amended. Failure containment. Take the dispatch of an enabled system \<open>s\<close>, stored under
  \<open>i\<close>, in a phase \<open>ph\<close>. If its function throws, its \<open>consecutiveFailures\<close> grows by
  exactly one, it stays enabled exactly when the resolution is not the strategy
  \<open>DISABLE\<close>, and the dispatch throws exactly when the last handler called throws;
  if the function returns, the counter is zero afterwards, the system stays enabled and
  the dispatch returns. A system that is not enabled is skipped by every later dispatch:
  nothing is invoked and nothing changes. When no dispatch of the loop over a phase's
  order throws, the systems invoked by it are exactly those of the order that were
  enabled when the loop began, in that order, whatever any of their functions throws;
  and no dispatch throws when the phase-level handler is absent or returns whatever it
  is given. A dispatch that throws ends the loop: the systems after it in the order are
  not dispatched.
\<close>

theorem failure_containment:
  "(map_of syss i = Some s \<and> enabled s \<and> fn s (ctx\<lparr>phase := ph\<rparr>) = Throws e \<longrightarrow>
      (\<exists>s'. map_of (fst (dispatch ph ctx h i syss)) i = Some s'
          \<and> consecutiveFailures s' = consecutiveFailures s + 1
          \<and> enabled s' = (resolution s h ph e \<noteq> HandlerReturns (Some DISABLE)))
      \<and> snd (snd (dispatch ph ctx h i syss)) = escaping (resolution s h ph e))
   \<and> (map_of syss i = Some s \<and> enabled s \<and> fn s (ctx\<lparr>phase := ph\<rparr>) = Returns \<longrightarrow>
      (\<exists>s'. map_of (fst (dispatch ph ctx h i syss)) i = Some s'
          \<and> consecutiveFailures s' = 0 \<and> enabled s')
      \<and> snd (snd (dispatch ph ctx h i syss)) = None)
   \<and> (\<not> enabledIn syss i \<longrightarrow> dispatch ph ctx h i syss = (syss, [], None))
   \<and> (keyed syss \<and> distinct ids \<and> snd (snd (phaseLoop ph ctx h ids syss)) = None \<longrightarrow>
        invokedIds (fst (snd (phaseLoop ph ctx h ids syss))) = filter (enabledIn syss) ids)
   \<and> (alwaysReturns h \<longrightarrow> snd (snd (phaseLoop ph ctx h ids syss)) = None)
   \<and> (snd (snd (dispatch ph ctx h i syss)) \<noteq> None \<longrightarrow>
        phaseLoop ph ctx h (i # ids) syss = dispatch ph ctx h i syss)"
  using dispatch_throw[where syss = syss and i = i and s = s and ctx = ctx and ph = ph and e = e
      and h = h]
    dispatch_return[where syss = syss and i = i and s = s and ctx = ctx and ph = ph and h = h]
    dispatch_disabled[where syss = syss and i = i and ph = ph and ctx = ctx and h = h]
    phaseLoop_invoked[where syss = syss and ids = ids and ph = ph and ctx = ctx and h = h]
    phaseLoop_returns[where syss = syss and ids = ids and ph = ph and ctx = ctx and h = h]
    phaseLoop_stops[where syss = syss and i = i and ids = ids and ph = ph and ctx = ctx and h = h]
  by blast

theorem failure_containment_witness:
  "(\<exists>s'. map_of (fst (dispatch Update \<lparr>deltaTime = Finite 16, ctxTime = Finite 16, phase = Update\<rparr>
                          (Some defaultErrorHandler) ''Crashing'' failingSystems)) ''Crashing''
           = Some s'
         \<and> consecutiveFailures s' = 1 \<and> enabled s')
   \<and> snd (snd (dispatch Update \<lparr>deltaTime = Finite 16, ctxTime = Finite 16, phase = Update\<rparr>
                  (Some defaultErrorHandler) ''Crashing'' failingSystems)) = None
   \<and> (\<exists>s'. map_of (fst (dispatch Update \<lparr>deltaTime = Finite 16, ctxTime = Finite 16, phase = Update\<rparr>
                          (Some disablingHandler) ''Crashing'' failingSystems)) ''Crashing''
           = Some s'
         \<and> consecutiveFailures s' = 1 \<and> \<not> enabled s')
   \<and> (\<exists>s'. map_of (fst (dispatch Update \<lparr>deltaTime = Finite 16, ctxTime = Finite 16, phase = Update\<rparr>
                          (Some defaultErrorHandler) ''Healthy'' failingSystems)) ''Healthy''
           = Some s'
         \<and> consecutiveFailures s' = 0 \<and> enabled s')
   \<and> dispatch Update \<lparr>deltaTime = Finite 16, ctxTime = Finite 16, phase = Update\<rparr>
        (Some defaultErrorHandler) ''Absent'' failingSystems = (failingSystems, [], None)
   \<and> invokedIds (fst (snd (phaseLoop Update \<lparr>deltaTime = Finite 16, ctxTime = Finite 16, phase = Update\<rparr>
                        (Some defaultErrorHandler) [''Crashing'', ''Healthy''] failingSystems)))
       = [''Crashing'', ''Healthy'']
   \<and> snd (snd (phaseLoop Update \<lparr>deltaTime = Finite 16, ctxTime = Finite 16, phase = Update\<rparr>
                  (Some disablingHandler) [''Crashing'', ''Healthy''] nullishSystems)) = None
   \<and> phaseLoop Update \<lparr>deltaTime = Finite 16, ctxTime = Finite 16, phase = Update\<rparr>
        (Some throwingHandler) [''Crashing'', ''Healthy''] failingSystems
       = dispatch Update \<lparr>deltaTime = Finite 16, ctxTime = Finite 16, phase = Update\<rparr>
           (Some throwingHandler) ''Crashing'' failingSystems"
proof -
  let ?ctx = "\<lparr>deltaTime = Finite 16, ctxTime = Finite 16, phase = Update\<rparr>"
  let ?crash = "plainSystem ''Crashing'' [Update] 0 [] [] (Some (UserError ''Crash''))"
  let ?ok = "plainSystem ''Healthy'' [Update] 0 [] [] None"
  have a: "map_of failingSystems ''Crashing'' = Some ?crash \<and> enabled ?crash
           \<and> fn ?crash (?ctx\<lparr>phase := Update\<rparr>) = Throws (UserError ''Crash'')"
    by (simp add: failingSystems_def plainSystem_def)
  have b: "map_of failingSystems ''Healthy'' = Some ?ok \<and> enabled ?ok
           \<and> fn ?ok (?ctx\<lparr>phase := Update\<rparr>) = Returns"
    by (simp add: failingSystems_def plainSystem_def)
  have c: "keyed failingSystems \<and> distinct [''Crashing'', ''Healthy'']"
    by (simp add: failingSystems_def plainSystem_def keyed_def)
  have c': "snd (snd (phaseLoop Update ?ctx (Some defaultErrorHandler) [''Crashing'', ''Healthy'']
                   failingSystems)) = None"
    by (simp add: failing_defs)
  have d: "\<not> enabledIn failingSystems ''Absent''"
    by (simp add: failing_defs)
  have r1: "resolution ?crash (Some defaultErrorHandler) Update (UserError ''Crash'')
              = HandlerReturns (Some IGNORE)"
    by (simp add: failing_defs)
  have r2: "resolution ?crash (Some disablingHandler) Update (UserError ''Crash'')
              = HandlerReturns (Some DISABLE)"
    by (simp add: failing_defs)
  have ar: "alwaysReturns (Some disablingHandler)"
    by (simp add: alwaysReturns_def disablingHandler_def)
  have cf: "consecutiveFailures ?crash = 0" by (simp add: plainSystem_def)
  have en: "filter (enabledIn failingSystems) [''Crashing'', ''Healthy''] = [''Crashing'', ''Healthy'']"
    by (simp add: failing_defs)
  from failure_containment[where syss = failingSystems and i = "''Crashing''" and s = ?crash
      and ctx = ?ctx and ph = Update and e = "UserError ''Crash''"
      and h = "Some defaultErrorHandler" and ids = "[''Crashing'', ''Healthy'']"] a c c' r1 cf en
  have w1: "(\<exists>s'. map_of (fst (dispatch Update ?ctx (Some defaultErrorHandler) ''Crashing''
                 failingSystems)) ''Crashing'' = Some s' \<and> consecutiveFailures s' = 1 \<and> enabled s')"
    and w1': "snd (snd (dispatch Update ?ctx (Some defaultErrorHandler) ''Crashing''
                 failingSystems)) = None"
    and w4: "invokedIds (fst (snd (phaseLoop Update ?ctx (Some defaultErrorHandler)
                 [''Crashing'', ''Healthy''] failingSystems))) = [''Crashing'', ''Healthy'']"
    by (simp_all add: escaping_def)
  from failure_containment[where syss = failingSystems and i = "''Crashing''" and s = ?crash
      and ctx = ?ctx and ph = Update and e = "UserError ''Crash''"
      and h = "Some disablingHandler" and ids = "[]"] a r2 cf
  have w2: "(\<exists>s'. map_of (fst (dispatch Update ?ctx (Some disablingHandler) ''Crashing''
                 failingSystems)) ''Crashing'' = Some s' \<and> consecutiveFailures s' = 1 \<and> \<not> enabled s')"
    by simp
  from failure_containment[where syss = failingSystems and i = "''Healthy''" and s = ?ok
      and ctx = ?ctx and ph = Update and h = "Some defaultErrorHandler" and ids = "[]"] b
  have w3: "(\<exists>s'. map_of (fst (dispatch Update ?ctx (Some defaultErrorHandler) ''Healthy''
                 failingSystems)) ''Healthy'' = Some s' \<and> consecutiveFailures s' = 0 \<and> enabled s')"
    by simp
  from failure_containment[where syss = failingSystems and i = "''Absent''"
      and ctx = ?ctx and ph = Update and h = "Some defaultErrorHandler" and ids = "[]"] d
  have w5: "dispatch Update ?ctx (Some defaultErrorHandler) ''Absent'' failingSystems
              = (failingSystems, [], None)"
    by simp
  from failure_containment[where syss = nullishSystems and ctx = ?ctx and ph = Update
      and h = "Some disablingHandler" and ids = "[''Crashing'', ''Healthy'']"] ar
  have w6: "snd (snd (phaseLoop Update ?ctx (Some disablingHandler) [''Crashing'', ''Healthy'']
                        nullishSystems)) = None"
    by simp
  have th: "snd (snd (dispatch Update ?ctx (Some throwingHandler) ''Crashing'' failingSystems))
              \<noteq> None"
    by (simp add: failing_defs)
  from failure_containment[where syss = failingSystems and i = "''Crashing''" and ctx = ?ctx
      and ph = Update and h = "Some throwingHandler" and ids = "[''Healthy'']"] th
  have w7: "phaseLoop Update ?ctx (Some throwingHandler) [''Crashing'', ''Healthy''] failingSystems
              = dispatch Update ?ctx (Some throwingHandler) ''Crashing'' failingSystems"
    by blast
  from w1 w1' w2 w3 w4 w5 w6 w7 show ?thesis by blast
qed

subsection \<open>Execution order\<close>

lemmas order_defs = recomputeExecutionOrder_def topologicalSort_def visit.simps hasPhase_def
  schedulerAB_def schedulerBA_def plainSystem_def Let_def

lemma schedulerAB_built:
  "addSystem (plainSystem ''B'' [Update] 0 [] [] None)
     (projr (addSystem (plainSystem ''A'' [Update] 0 [''B''] [] None) newScheduler))
   = Inr schedulerAB"
  by (simp add: addSystem_def newScheduler_def schedulerAB_def plainSystem_def)

text \<open>
  C2, at the input where the code departs from it. \<open>A\<close> declares \<open>runBefore: [B]\<close>; both
  systems belong to the \<open>update\<close> phase and the constraint graph is acyclic. Registered
  as \<open>A, B\<close>, the recomputed order of the phase is \<open>[B]\<close>: \<open>A\<close> is missing from it, and
  executing the phase invokes \<open>B\<close> only. Registered as \<open>B, A\<close>, the order is
  \<open>[B, A]\<close>: \<open>A\<close> is placed after \<open>B\<close>.
\<close>

theorem runBefore_order_violated:
  "recomputeExecutionOrder schedulerAB
     = (schedulerAB\<lparr>executionOrder := [(Init, []), (FixedUpdate, []), (Update, [''B'']),
                                          (LateUpdate, []), (Cleanup, [])],
                     schedDirty := False\<rparr>, None)
   \<and> invokedIds (fst (snd (executePhase Update \<lparr>deltaTime = Finite 16, ctxTime = Finite 16, phase = Update\<rparr>
                              (Some defaultErrorHandler) schedulerAB))) = [''B'']
   \<and> recomputeExecutionOrder schedulerBA
     = (schedulerBA\<lparr>executionOrder := [(Init, []), (FixedUpdate, []), (Update, [''B'', ''A'']),
                                          (LateUpdate, []), (Cleanup, [])],
                     schedDirty := False\<rparr>, None)"
  by (simp add: order_defs executePhase_def dispatch_def run_def)

section \<open>Properties of the component store, the queries and the entities\<close>

lemma set_set_add [simp]: "set (set_add x xs) = insert x (set xs)"
  by (auto simp: set_add_def)

lemma set_fold_set_add: "set (fold set_add xs acc) = set acc \<union> set xs"
  by (induction xs arbitrary: acc) auto

lemma has_known: "has st e c \<Longrightarrow> e \<in> set (getAllEntities st)"
  by (auto simp: has_def getAllEntities_def split: option.splits dest: map_of_SomeD intro: rev_image_eqI)

lemma indexed_new: "indexed newComponentStore"
  by (simp add: indexed_def newComponentStore_def getEntitiesWithComponent_def has_def)

lemma has_storeAdd:
  "has (storeAdd e cpt st) e' c' = ((e' = e \<and> c' = componentId cpt) \<or> has st e' c')"
  by (auto simp: has_def storeAdd_def Let_def update_conv' split: option.splits)

lemma index_storeAdd:
  "set (getEntitiesWithComponent (storeAdd e cpt st) c') =
     (if c' = componentId cpt then insert e (set (getEntitiesWithComponent st c'))
      else set (getEntitiesWithComponent st c'))"
  by (auto simp: getEntitiesWithComponent_def storeAdd_def Let_def update_conv' split: option.splits)

lemma indexed_storeAdd: "indexed st \<Longrightarrow> indexed (storeAdd e cpt st)"
  by (auto simp: indexed_def has_storeAdd index_storeAdd)

lemma lookup_unindex:
  "set (case map_of (unindex e c idx) c' of Some ix \<Rightarrow> ix | None \<Rightarrow> []) =
     (if c' = c then set (case map_of idx c' of Some ix \<Rightarrow> ix | None \<Rightarrow> []) - {e}
      else set (case map_of idx c' of Some ix \<Rightarrow> ix | None \<Rightarrow> []))"
proof (cases "map_of idx c")
  case None
  then show ?thesis by (simp add: unindex_def)
next
  case (Some ix)
  have "removeAll e ix = [] \<Longrightarrow> set ix - {e} = {}"
    by (metis set_removeAll empty_set)
  with Some show ?thesis
    by (auto simp: unindex_def Let_def update_conv' delete_conv' split: option.splits)
qed

lemma storeRemove_unchanged:
  "\<not> snd (storeRemove e c st) \<Longrightarrow> fst (storeRemove e c st) = st"
  by (auto simp: storeRemove_def split: option.splits)

lemma has_storeRemove:
  "has (fst (storeRemove e c st)) e' c' = (has st e' c' \<and> \<not> (e' = e \<and> c' = c))"
  by (auto simp: has_def storeRemove_def update_conv' delete_conv' split: option.splits)

lemma index_storeRemove:
  "snd (storeRemove e c st) \<Longrightarrow> set (getEntitiesWithComponent (fst (storeRemove e c st)) c') =
     (if c' = c then set (getEntitiesWithComponent st c') - {e}
      else set (getEntitiesWithComponent st c'))"
  using lookup_unindex[of e c "componentIndex st" c']
  by (simp add: getEntitiesWithComponent_def storeRemove_def split: option.splits if_splits)

lemma indexed_storeRemove:
  assumes "indexed st"
  shows "indexed (fst (storeRemove e c st))"
proof (cases "snd (storeRemove e c st)")
  case False
  with assms show ?thesis by (simp add: storeRemove_unchanged)
next
  case True
  show ?thesis
    unfolding indexed_def
  proof (intro allI)
    fix e' c'
    show "(e' \<in> set (getEntitiesWithComponent (fst (storeRemove e c st)) c'))
            = has (fst (storeRemove e c st)) e' c'"
      using assms by (auto simp: index_storeRemove[OF True] has_storeRemove indexed_def)
  qed
qed


lemma lookup_fold_unindex:
  "set (case map_of (fold (unindex e) cs idx) c' of Some ix \<Rightarrow> ix | None \<Rightarrow> []) =
     (if c' \<in> set cs then set (case map_of idx c' of Some ix \<Rightarrow> ix | None \<Rightarrow> []) - {e}
      else set (case map_of idx c' of Some ix \<Rightarrow> ix | None \<Rightarrow> []))"
proof (induction cs arbitrary: idx)
  case Nil
  then show ?case by simp
next
  case (Cons c cs)
  show ?case
    using Cons.IH[of "unindex e c idx"] lookup_unindex[of e c idx c']
    by (auto split: if_splits)
qed

lemma has_removeAllComponents:
  "has (removeAllComponents e st) e' c' = (e' \<noteq> e \<and> has st e' c')"
  by (auto simp: has_def removeAllComponents_def delete_conv' split: option.splits)

lemma indexed_removeAllComponents:
  assumes "indexed st"
  shows "indexed (removeAllComponents e st)"
proof (cases "map_of (components st) e")
  case None
  with assms show ?thesis by (simp add: removeAllComponents_def)
next
  case (Some ec)
  have idx: "set (getEntitiesWithComponent (removeAllComponents e st) c') =
      (if c' \<in> fst ` set ec then set (getEntitiesWithComponent st c') - {e}
       else set (getEntitiesWithComponent st c'))" for c'
    using Some lookup_fold_unindex[of e "map fst ec" "componentIndex st" c']
    by (simp add: getEntitiesWithComponent_def removeAllComponents_def)
  have nokey: "c' \<notin> fst ` set ec \<Longrightarrow> \<not> has st e c'" for c'
    using Some by (auto simp: has_def map_of_eq_None_iff[symmetric] split: option.splits)
  show ?thesis
    unfolding indexed_def
  proof (intro allI)
    fix e' c'
    show "(e' \<in> set (getEntitiesWithComponent (removeAllComponents e st) c'))
            = has (removeAllComponents e st) e' c'"
      using assms nokey[of c'] by (auto simp: idx has_removeAllComponents indexed_def)
  qed
qed

subsection \<open>Candidates\<close>

lemma matchesFilters_iff:
  "matchesFilters st e fs = (\<forall>f \<in> set fs. filterHolds st e f)"
  by (induction fs) (auto simp: filterHolds_def list_all_iff list_ex_iff split: filterType.splits)

lemma unionAny_inner:
  "set (fold (\<lambda>c cands1. fold set_add (getEntitiesWithComponent st c) cands1) cs acc)
     = set acc \<union> {e. \<exists>c \<in> set cs. e \<in> set (getEntitiesWithComponent st c)}"
  by (induction cs arbitrary: acc) (auto simp: set_fold_set_add)

lemma unionAny_outer:
  "set (fold (\<lambda>f cands. fold (\<lambda>c cands1. fold set_add (getEntitiesWithComponent st c) cands1)
                        (fcomponents f) cands) fs acc)
     = set acc \<union> {e. \<exists>f \<in> set fs. \<exists>c \<in> set (fcomponents f). e \<in> set (getEntitiesWithComponent st c)}"
  by (induction fs arbitrary: acc) (auto simp: unionAny_inner)

lemma set_unionAny:
  "set (unionAny st fs)
     = {e. \<exists>f \<in> set fs. \<exists>c \<in> set (fcomponents f). e \<in> set (getEntitiesWithComponent st c)}"
  by (simp add: unionAny_def unionAny_outer)

lemma oset_narrowStep: "oset (narrowStep st c x) = oset x \<inter> set (getEntitiesWithComponent st c)"
  by (auto simp: oset_def narrowStep_def Let_def split: option.splits)

lemma oset_narrow_inner:
  "oset (fold (narrowStep st) cs x)
     = oset x \<inter> {e. \<forall>c \<in> set cs. e \<in> set (getEntitiesWithComponent st c)}"
  by (induction cs arbitrary: x) (auto simp: oset_narrowStep)

lemma narrowAll_alt:
  "narrowAll st fs x = fold (\<lambda>f cands. fold (narrowStep st) (fcomponents f) cands) fs x"
  by (simp add: narrowAll_def narrowStep_def[abs_def])

lemma oset_narrowAll:
  "oset (narrowAll st fs x)
     = oset x \<inter> {e. \<forall>f \<in> set fs. \<forall>c \<in> set (fcomponents f). e \<in> set (getEntitiesWithComponent st c)}"
  unfolding narrowAll_alt
  by (induction fs arbitrary: x) (auto simp: oset_narrow_inner)

lemma index_known:
  "indexed st \<Longrightarrow> e \<in> set (getEntitiesWithComponent st c) \<Longrightarrow> e \<in> set (getAllEntities st)"
  by (simp add: indexed_def has_known)

lemma withinKnown_narrowStep:
  "indexed st \<Longrightarrow> withinKnown st x \<Longrightarrow> withinKnown st (narrowStep st c x)"
  by (auto simp: withinKnown_def narrowStep_def Let_def index_known split: option.splits)

lemma withinKnown_inner:
  "indexed st \<Longrightarrow> withinKnown st x \<Longrightarrow> withinKnown st (fold (narrowStep st) cs x)"
  by (induction cs arbitrary: x) (auto simp: withinKnown_narrowStep)

lemma withinKnown_narrowAll:
  "indexed st \<Longrightarrow> withinKnown st x \<Longrightarrow> withinKnown st (narrowAll st fs x)"
  unfolding narrowAll_alt
  by (induction fs arbitrary: x) (auto simp: withinKnown_inner)

lemma candidates_known:
  assumes "indexed st"
  shows "set (getCandidateEntities q st) \<subseteq> set (getAllEntities st)"
proof -
  let ?anyFs = "filter (\<lambda>f. ftype f = FAny) (filters q)"
  let ?allFs = "filter (\<lambda>f. ftype f = FAll) (filters q)"
  let ?c0 = "if length ?anyFs > 0 then Some (unionAny st ?anyFs) else None"
  have "withinKnown st ?c0"
    using assms by (auto simp: withinKnown_def set_unionAny index_known)
  from withinKnown_narrowAll[OF assms this]
  have wk: "withinKnown st (narrowAll st ?allFs ?c0)" .
  have eq: "getCandidateEntities q st =
      (case narrowAll st ?allFs ?c0 of None \<Rightarrow> getAllEntities st | Some cs \<Rightarrow> cs)"
    by (simp add: getCandidateEntities_def Let_def)
  show ?thesis
    unfolding eq using wk by (cases "narrowAll st ?allFs ?c0") (simp_all add: withinKnown_def)
qed

lemma candidates_complete:
  assumes ix: "indexed st" and known: "e \<in> set (getAllEntities st)" and m: "matches q st e"
  shows "e \<in> set (getCandidateEntities q st)"
proof -
  let ?anyFs = "filter (\<lambda>f. ftype f = FAny) (filters q)"
  let ?allFs = "filter (\<lambda>f. ftype f = FAll) (filters q)"
  let ?c0 = "if length ?anyFs > 0 then Some (unionAny st ?anyFs) else None"
  from m have holds: "\<forall>f \<in> set (filters q). filterHolds st e f"
    by (simp add: matches_def matchesFilters_iff)
  have in0: "e \<in> oset ?c0"
  proof (cases "?anyFs")
    case Nil
    then show ?thesis by (simp add: oset_def)
  next
    case (Cons f fs)
    then have "f \<in> set ?anyFs" by simp
    then have f: "f \<in> set (filters q)" "ftype f = FAny" by simp_all
    with holds have "\<exists>c \<in> set (fcomponents f). has st e c" by (auto simp: filterHolds_def)
    with ix have "\<exists>c \<in> set (fcomponents f). e \<in> set (getEntitiesWithComponent st c)"
      by (simp add: indexed_def)
    moreover have "f \<in> set ?anyFs" using Cons by simp
    ultimately have "e \<in> set (unionAny st ?anyFs)" unfolding set_unionAny by blast
    with Cons show ?thesis by (simp add: oset_def)
  qed
  have "\<forall>f \<in> set ?allFs. \<forall>c \<in> set (fcomponents f). e \<in> set (getEntitiesWithComponent st c)"
    using holds ix by (auto simp: filterHolds_def indexed_def)
  with in0 have "e \<in> oset (narrowAll st ?allFs ?c0)" by (simp add: oset_narrowAll)
  moreover have eq: "getCandidateEntities q st =
      (case narrowAll st ?allFs ?c0 of None \<Rightarrow> getAllEntities st | Some cs \<Rightarrow> cs)"
    by (simp add: getCandidateEntities_def Let_def)
  ultimately show ?thesis
    unfolding eq using known by (cases "narrowAll st ?allFs ?c0") (simp_all add: oset_def)
qed

lemma execute_recomputes:
  assumes "indexed st" and "dirty q"
  shows "set (fst (execute q st)) = {e \<in> set (getAllEntities st). matches q st e}"
  using assms candidates_known[OF assms(1), of q] candidates_complete[OF assms(1), of _ q]
  by (auto simp: execute_def Let_def)

subsection \<open>The World keeps the index\<close>

lemma indexed_addComponent:
  "indexed (componentStore w) \<Longrightarrow> addComponent e cpt w = Inr w' \<Longrightarrow> indexed (componentStore w')"
  by (auto simp: addComponent_def indexed_storeAdd split: if_splits)

lemma indexed_removeComponent:
  "indexed (componentStore w) \<Longrightarrow> indexed (componentStore (fst (removeComponent e c w)))"
  using indexed_storeRemove[of "componentStore w" e c]
  by (auto simp: removeComponent_def split: prod.splits)

lemma indexed_destroyEntity:
  "indexed (componentStore w) \<Longrightarrow> indexed (componentStore (fst (destroyEntity e w)))"
  by (auto simp: destroyEntity_def indexed_removeAllComponents split: option.splits)

lemmas ecs_defs = newWorld_def newComponentStore_def newScheduler_def createEntity_def
  createEntityId_def createEntityWithId_def addComponent_def storeAdd_def set_add_def
  query_def cacheGet_def getKey_def sortDescriptor_def newQuery_def nonEmpty_def
  executeQuery_def execute_def getCandidateEntities_def narrowAll_def unionAny_def
  getEntitiesWithComponent_def getAllEntities_def matches_def has_def
  markDirtyForComponent_def markDirty_def hasEntity_def Let_def

lemmas ab_defs = compA_def compB_def abDescriptor_def twoEntities_def abWorld_def
  abQueried_def abExecuted_def abAdded_def

lemma abWorld_store:
  "has (componentStore abWorld) 1 ''A''" "\<not> has (componentStore abWorld) 1 ''B''"
  "has (componentStore abWorld) 2 ''A''" "has (componentStore abWorld) 2 ''B''"
  "indexed (componentStore abWorld)"
  by (simp_all add: ab_defs ecs_defs indexed_def)

lemma ab_first:
  "query abDescriptor abWorld = Inr (''all:A,B'', abQueried)"
  "map_option fst (executeQuery ''all:A,B'' abQueried) = Some [2]"
  "map_option dirty (map_of (queryCache abExecuted) ''all:A,B'') = Some False"
  by (simp_all add: ab_defs ecs_defs)

lemma ab_second:
  "addComponent 1 compB abExecuted = Inr abAdded"
  "map_option dirty (map_of (queryCache abAdded) ''all:A,B'') = Some True"
  "query abDescriptor abAdded = Inr (''all:A,B'', abAdded)"
  "map fst (queryCache abAdded) = [''all:A,B'']"
  "map_option (set \<circ> fst) (executeQuery ''all:A,B'' abAdded) = Some {1, 2}"
  by (simp_all add: ab_defs ecs_defs)

lemma abAdded_nf:
  "componentStore abAdded =
     \<lparr>components = [(1, [(''A'', [compA\<lparr>entity := Some 1\<rparr>]), (''B'', [compB\<lparr>entity := Some 1\<rparr>])]),
                    (2, [(''A'', [compA\<lparr>entity := Some 2\<rparr>]), (''B'', [compB\<lparr>entity := Some 2\<rparr>])])],
      componentIndex = [(''A'', [1, 2]), (''B'', [2, 1])]\<rparr>"
  "queryCache abAdded = [(''all:A,B'', \<lparr>filters = [\<lparr>ftype = FAll, fcomponents = [''A'', ''B'']\<rparr>],
             cachedResults = Some [2], resultSignal = None, dirty = True\<rparr>)]"
  by (simp_all add: ab_defs ecs_defs)

lemma abWorld_nf:
  "componentStore abWorld =
     \<lparr>components = [(1, [(''A'', [compA\<lparr>entity := Some 1\<rparr>])]),
                    (2, [(''A'', [compA\<lparr>entity := Some 2\<rparr>]), (''B'', [compB\<lparr>entity := Some 2\<rparr>])])],
      componentIndex = [(''A'', [1, 2]), (''B'', [2])]\<rparr>"
  by (simp_all add: ab_defs ecs_defs)

text \<open>
  C4. Query cache coherence. Entity 1 owns an \<open>A\<close>, entity 2 an \<open>A\<close> and a \<open>B\<close>. The
  query \<open>{all: [A, B]}\<close> is cached under the key \<open>all:A,B\<close> and its first \<open>execute()\<close>
  returns \<open>{2}\<close>, leaving the cached result clean. \<open>addComponent(1, B)\<close> marks that
  cached query dirty; asking for the same descriptor again returns the same instance
  (the cache still holds exactly one query, none was constructed), and its next
  \<open>execute()\<close> returns \<open>{1, 2}\<close>. In general, on a store whose index agrees with its
  storage, \<open>execute()\<close> of a dirty query returns exactly the entities of the store that
  satisfy every filter, caches that result and clears the dirty flag.
\<close>

theorem query_cache_coherence:
  "has (componentStore abWorld) 1 ''A'' \<and> \<not> has (componentStore abWorld) 1 ''B''
   \<and> has (componentStore abWorld) 2 ''A'' \<and> has (componentStore abWorld) 2 ''B''
   \<and> query abDescriptor abWorld = Inr (''all:A,B'', abQueried)
   \<and> map_option fst (executeQuery ''all:A,B'' abQueried) = Some [2]
   \<and> map_option dirty (map_of (queryCache abExecuted) ''all:A,B'') = Some False
   \<and> addComponent 1 compB abExecuted = Inr abAdded
   \<and> map_option dirty (map_of (queryCache abAdded) ''all:A,B'') = Some True
   \<and> query abDescriptor abAdded = Inr (''all:A,B'', abAdded)
   \<and> map fst (queryCache abAdded) = [''all:A,B'']
   \<and> map_option (set \<circ> fst) (executeQuery ''all:A,B'' abAdded) = Some {1, 2}
   \<and> (indexed st \<and> dirty q \<longrightarrow>
        set (fst (execute q st)) = {e \<in> set (getAllEntities st). \<forall>f \<in> set (filters q). filterHolds st e f}
      \<and> cachedResults (snd (execute q st)) = Some (fst (execute q st))
      \<and> \<not> dirty (snd (execute q st)))"
proof -
  have "set (fst (execute q st)) = {e \<in> set (getAllEntities st). \<forall>f \<in> set (filters q). filterHolds st e f}
      \<and> cachedResults (snd (execute q st)) = Some (fst (execute q st))
      \<and> \<not> dirty (snd (execute q st))" if "indexed st" "dirty q"
    using execute_recomputes[OF that] that(2)
    by (simp add: matches_def matchesFilters_iff) (simp add: execute_def Let_def)
  then show ?thesis
    by (simp add: abWorld_store(1-4) ab_first ab_second)
qed

theorem query_cache_coherence_witness:
  "indexed (componentStore abAdded)
   \<and> (\<exists>q. map_of (queryCache abAdded) ''all:A,B'' = Some q \<and> dirty q
        \<and> set (fst (execute q (componentStore abAdded))) = {1, 2}
        \<and> \<not> dirty (snd (execute q (componentStore abAdded))))"
proof -
  let ?q = "\<lparr>filters = [\<lparr>ftype = FAll, fcomponents = [''A'', ''B'']\<rparr>],
             cachedResults = Some [2], resultSignal = None, dirty = True\<rparr>"
  have q: "map_of (queryCache abAdded) ''all:A,B'' = Some ?q"
    by (simp add: abAdded_nf)
  have "indexed (componentStore abExecuted)"
    by (simp add: ab_defs ecs_defs indexed_def)
  from indexed_addComponent[OF this ab_second(1)]
  have ix: "indexed (componentStore abAdded)" .
  have d: "dirty ?q" by simp
  have known: "{e \<in> set (getAllEntities (componentStore abAdded)).
                  \<forall>f \<in> set (filters ?q). filterHolds (componentStore abAdded) e f} = {1, 2}"
    by (auto simp: abAdded_nf getAllEntities_def filterHolds_def has_def)
  from query_cache_coherence[where st = "componentStore abAdded" and q = ?q] ix d known
  have "set (fst (execute ?q (componentStore abAdded))) = {1, 2}
        \<and> \<not> dirty (snd (execute ?q (componentStore abAdded)))" by simp
  with q ix show ?thesis by simp
qed

lemmas lone_defs = noneADescriptor_def loneWorld_def loneQueried_def

text \<open>
  C5 fails as stated: entity 1 is alive and owns no component at all, in particular no
  \<open>A\<close>, yet the query \<open>{none: [A]}\<close> returns the empty set. The entity never received a
  component, so the component store has no entry for it.
\<close>

theorem none_query_misses_bare_entity:
  "hasEntity loneQueried 1
   \<and> \<not> has (componentStore loneQueried) 1 ''A''
   \<and> query noneADescriptor loneWorld = Inr (''none:A'', loneQueried)
   \<and> map_option fst (executeQuery ''none:A'' loneQueried) = Some []"
  by (simp add: lone_defs ecs_defs)

lemma none_only_candidates:
  assumes "filters q = [\<lparr>ftype = FNone, fcomponents = cs\<rparr>]"
  shows "getCandidateEntities q st = getAllEntities st"
  using assms by (simp add: getCandidateEntities_def narrowAll_def Let_def)

lemma getAllEntities_storeAdd:
  "set (getAllEntities (storeAdd e cpt st)) = insert e (set (getAllEntities st))"
  by (auto simp: getAllEntities_def storeAdd_def Let_def dom_map_of_conv_image_fst[symmetric]
        update_conv')

lemma getAllEntities_storeRemove:
  "set (getAllEntities (fst (storeRemove e c st))) = set (getAllEntities st)"
  by (auto simp: getAllEntities_def storeRemove_def dom_map_of_conv_image_fst[symmetric]
        update_conv' split: option.splits)

lemma getAllEntities_removeAllComponents:
  "set (getAllEntities (removeAllComponents e st)) = set (getAllEntities st) - {e}"
  by (auto simp: getAllEntities_def removeAllComponents_def dom_map_of_conv_image_fst[symmetric]
        delete_conv' split: option.splits if_splits)

lemma abRemoved_nf:
  "componentStore (fst (removeComponent 1 ''A'' abWorld)) =
     \<lparr>components = [(1, []),
                    (2, [(''A'', [compA\<lparr>entity := Some 2\<rparr>]), (''B'', [compB\<lparr>entity := Some 2\<rparr>])])],
      componentIndex = [(''A'', [2]), (''B'', [2])]\<rparr>"
  by (simp add: abWorld_nf removeComponent_def storeRemove_def unindex_def Let_def)

text \<open>
  C5, amended. A query built only from a none filter is constructed dirty, and an
  \<open>execute()\<close> of such a query while it is dirty returns exactly the entities that have an
  entry in the component store and possess none of the listed types. Creating an entity
  makes no entry; \<open>addComponent\<close> makes one; \<open>removeComponent\<close> never takes it away (so
  an entity whose components were all removed is still returned); destroying the entity
  takes it away.
\<close>

theorem none_only_query:
  "(\<not> nonEmpty a \<and> \<not> nonEmpty b \<and> cs \<noteq> [] \<longrightarrow>
      newQuery \<lparr>allOf = a, anyOf = b, noneOf = Some cs\<rparr>
        = Inr \<lparr>filters = [\<lparr>ftype = FNone, fcomponents = cs\<rparr>], cachedResults = None,
               resultSignal = None, dirty = True\<rparr>)
   \<and> (filters q = [\<lparr>ftype = FNone, fcomponents = cs\<rparr>] \<and> dirty q \<longrightarrow>
        set (fst (execute q st)) = {e \<in> set (getAllEntities st). \<forall>c \<in> set cs. \<not> has st e c})
   \<and> componentStore (fst (snd (createEntity w n))) = componentStore w
   \<and> (addComponent e cpt w = Inr w' \<longrightarrow> e \<in> set (getAllEntities (componentStore w')))
   \<and> set (getAllEntities (componentStore (fst (removeComponent e c w))))
       = set (getAllEntities (componentStore w))
   \<and> (hasEntity w e \<longrightarrow> e \<notin> set (getAllEntities (componentStore (fst (destroyEntity e w)))))"
proof (intro conjI impI)
  assume "\<not> nonEmpty a \<and> \<not> nonEmpty b \<and> cs \<noteq> []"
  then show "newQuery \<lparr>allOf = a, anyOf = b, noneOf = Some cs\<rparr>
        = Inr \<lparr>filters = [\<lparr>ftype = FNone, fcomponents = cs\<rparr>], cachedResults = None,
               resultSignal = None, dirty = True\<rparr>"
    by (simp add: newQuery_def nonEmpty_def Let_def)
next
  assume h: "filters q = [\<lparr>ftype = FNone, fcomponents = cs\<rparr>] \<and> dirty q"
  then have cand: "getCandidateEntities q st = getAllEntities st"
    by (simp add: none_only_candidates)
  from h have m: "matches q st e = (\<forall>c \<in> set cs. \<not> has st e c)" for e
    by (simp add: matches_def list_ex_iff)
  from h have "fst (execute q st) = filter (\<lambda>e. matches q st e) (getCandidateEntities q st)"
    by (simp add: execute_def Let_def)
  then show "set (fst (execute q st)) = {e \<in> set (getAllEntities st). \<forall>c \<in> set cs. \<not> has st e c}"
    by (simp add: cand m)
next
  show "componentStore (fst (snd (createEntity w n))) = componentStore w"
    by (simp add: createEntity_def createEntityId_def Let_def)
next
  assume "addComponent e cpt w = Inr w'"
  then show "e \<in> set (getAllEntities (componentStore w'))"
    by (auto simp: addComponent_def getAllEntities_storeAdd split: if_splits)
next
  obtain st1 removed where sr: "storeRemove e c (componentStore w) = (st1, removed)"
    by (cases "storeRemove e c (componentStore w)")
  then have "componentStore (fst (removeComponent e c w)) = st1"
    by (simp add: removeComponent_def)
  with getAllEntities_storeRemove[of e c "componentStore w"] sr
  show "set (getAllEntities (componentStore (fst (removeComponent e c w))))
       = set (getAllEntities (componentStore w))"
    by simp
next
  assume "hasEntity w e"
  then show "e \<notin> set (getAllEntities (componentStore (fst (destroyEntity e w))))"
    by (auto simp: destroyEntity_def hasEntity_def getAllEntities_removeAllComponents)
qed

theorem none_only_query_witness:
  "newQuery noneADescriptor
     = Inr \<lparr>filters = [\<lparr>ftype = FNone, fcomponents = [''A'']\<rparr>], cachedResults = None,
            resultSignal = None, dirty = True\<rparr>
   \<and> set (fst (execute \<lparr>filters = [\<lparr>ftype = FNone, fcomponents = [''A'']\<rparr>], cachedResults = None,
                        resultSignal = None, dirty = True\<rparr>
                (componentStore (fst (removeComponent 1 ''A'' abWorld))))) = {1}
   \<and> addComponent 1 compA twoEntities = Inr (projr (addComponent 1 compA twoEntities))
   \<and> 1 \<in> set (getAllEntities (componentStore (projr (addComponent 1 compA twoEntities))))
   \<and> hasEntity abWorld 2
   \<and> 2 \<notin> set (getAllEntities (componentStore (fst (destroyEntity 2 abWorld))))"
proof -
  let ?q = "\<lparr>filters = [\<lparr>ftype = FNone, fcomponents = [''A'']\<rparr>], cachedResults = None,
             resultSignal = None, dirty = True\<rparr>"
  have pre: "\<not> nonEmpty None \<and> \<not> nonEmpty None \<and> [''A''] \<noteq> []" by (simp add: nonEmpty_def)
  have add: "addComponent 1 compA twoEntities = Inr (projr (addComponent 1 compA twoEntities))"
    by (simp add: ab_defs ecs_defs)
  have live: "hasEntity abWorld 2" by (simp add: ab_defs ecs_defs)
  have s2: "{e \<in> set (getAllEntities (componentStore (fst (removeComponent 1 ''A'' abWorld)))).
              \<forall>c \<in> set [''A'']. \<not> has (componentStore (fst (removeComponent 1 ''A'' abWorld))) e c} = {1}"
    by (auto simp: abRemoved_nf getAllEntities_def has_def)
  have qd: "filters ?q = [\<lparr>ftype = FNone, fcomponents = [''A'']\<rparr>] \<and> dirty ?q" by simp
  from none_only_query[where a = None and b = None and cs = "[''A'']" and q = ?q
      and st = "componentStore (fst (removeComponent 1 ''A'' abWorld))"
      and e = 1 and cpt = compA and w = twoEntities
      and w' = "projr (addComponent 1 compA twoEntities)"]
    none_only_query[where e = 2 and w = abWorld] pre add live s2 qd
  show ?thesis by (simp add: noneADescriptor_def)
qed

text \<open>
  C3, at the input where the code departs from it. In a fresh world, with the id counter
  at its initial value 1, \<open>createEntityWithId(1)\<close> succeeds and entity 1 receives a
  component. The following \<open>createEntity()\<close> returns an entity with id 1 again: the
  entity table still has the single key 1, and the new entity finds itself owning the
  component of the old one.
\<close>

theorem createEntity_reuses_live_id:
  "createEntityWithId 1 (newWorld None None None)
     = Inr (\<lparr>entityId = 1\<rparr>, snd (projr (createEntityWithId 1 (newWorld None None None))))
   \<and> hasEntity explicitOne 1
   \<and> createEntityWithId 1 explicitOne = Inl (EntityExists 1)
   \<and> fst (createEntity explicitOne 1) = \<lparr>entityId = 1\<rparr>
   \<and> map fst (entities (fst (snd (createEntity explicitOne 1)))) = [1]
   \<and> has (componentStore (fst (snd (createEntity explicitOne 1)))) 1 ''A''"
  by (simp add: explicitOne_def compA_def ecs_defs)

section \<open>Properties of the reactive graph\<close>

subsection \<open>A deeper bound returns the same\<close>

lemma refines_refl [simp]: "refines m m"
  by (simp add: refines_def)

lemma refines_None [simp]: "refines None m"
  by (simp add: refines_def)

lemma refines_Some: "refines m m' \<Longrightarrow> m = Some r \<Longrightarrow> m' = Some r"
  by (auto simp: refines_def)

lemma refines_bind:
  assumes "refines m m'" and "\<And>v s. refines (f v s) (f' v s)"
  shows "refines (bind m f) (bind m' f')"
proof (cases m)
  case None
  then show ?thesis by simp
next
  case (Some r)
  with assms(1) have "m' = Some r" by (simp add: refines_def)
  with Some assms(2) show ?thesis by (cases r) simp_all
qed

lemma refines_tryFinally: "refines m m' \<Longrightarrow> refines (tryFinally m g) (tryFinally m' g)"
  by (auto simp: refines_def)

lemma methods_leD: "methods_le rec rec' \<Longrightarrow> refines (rec c s) (rec' c s)"
  by (simp add: methods_le_def)

lemma batch_mono:
  assumes "methods_le rec rec'" and "\<And>s. refines (f s) (f' s)"
  shows "refines (batch rec f s) (batch rec' f' s)"
proof (cases "f (s\<lparr>batchDepth := batchDepth s + 1\<rparr>)")
  case None
  then show ?thesis by (simp add: batch_def)
next
  case (Some r)
  with assms(2)[of "s\<lparr>batchDepth := batchDepth s + 1\<rparr>"]
  have "f' (s\<lparr>batchDepth := batchDepth s + 1\<rparr>) = Some r" by (simp add: refines_def)
  with Some show ?thesis
    by (cases r) (auto simp: batch_def Let_def intro!: refines_bind methods_leD[OF assms(1)])
qed

lemma untrack_mono:
  assumes "\<And>s. refines (f s) (f' s)"
  shows "refines (untrack f s) (untrack f' s)"
  by (simp add: untrack_def refines_tryFinally assms)

lemma eval_mono:
  assumes "methods_le rec rec'"
  shows "refines (eval rec e s) (eval rec' e s)"
proof (induction e arbitrary: s)
  case (BatchE e)
  then show ?case by (simp add: batch_mono[OF assms])
next
  case (Untrack e)
  then show ?case by (simp add: untrack_mono)
qed (auto intro!: refines_bind methods_leD[OF assms])

lemma notifyRun_mono:
  assumes "methods_le rec rec'"
  shows "refines (notifyRun rec this subs s) (notifyRun rec' this subs s)"
  by (induction subs arbitrary: s) (auto intro!: refines_bind methods_leD[OF assms])

lemma notify_mono:
  "methods_le rec rec' \<Longrightarrow> refines (notify rec this s) (notify rec' this s)"
  by (simp add: notify_def Let_def notifyRun_mono)

lemma signalSet_mono:
  "methods_le rec rec' \<Longrightarrow> refines (signalSet rec this v s) (signalSet rec' this v s)"
  by (simp add: signalSet_def Let_def notify_mono)

lemma recompute_mono:
  "methods_le rec rec' \<Longrightarrow> refines (recompute rec this s) (recompute rec' this s)"
  by (auto simp: recompute_def Let_def intro!: refines_tryFinally refines_bind eval_mono)

lemma computedGet_mono:
  "methods_le rec rec' \<Longrightarrow> refines (computedGet rec this s) (computedGet rec' this s)"
  by (auto simp: computedGet_def intro!: refines_bind recompute_mono)

lemma computedPeek_mono:
  "methods_le rec rec' \<Longrightarrow> refines (computedPeek rec this s) (computedPeek rec' this s)"
  by (auto simp: computedPeek_def intro!: refines_bind recompute_mono)

lemma computedUpdate_mono:
  "methods_le rec rec' \<Longrightarrow> refines (computedUpdate rec this s) (computedUpdate rec' this s)"
  by (auto simp: computedUpdate_def intro!: refines_bind recompute_mono notify_mono)

lemma runCleanup_mono:
  "methods_le rec rec' \<Longrightarrow> refines (runCleanup rec this s) (runCleanup rec' this s)"
  by (auto simp: runCleanup_def intro!: refines_bind eval_mono split: option.splits)

lemma effectRun_mono:
  "methods_le rec rec' \<Longrightarrow> refines (effectRun rec this s) (effectRun rec' this s)"
  by (auto simp: effectRun_def Let_def
           intro!: refines_tryFinally refines_bind eval_mono runCleanup_mono)

lemma effectUpdate_mono:
  "methods_le rec rec' \<Longrightarrow> refines (effectUpdate rec this s) (effectUpdate rec' this s)"
  by (simp add: effectUpdate_def effectRun_mono)

lemma nodeGet_mono:
  "methods_le rec rec' \<Longrightarrow> refines (nodeGet rec this s) (nodeGet rec' this s)"
  by (simp add: nodeGet_def computedGet_mono split: kind.splits)

lemma nodePeek_mono:
  "methods_le rec rec' \<Longrightarrow> refines (nodePeek rec this s) (nodePeek rec' this s)"
  by (simp add: nodePeek_def computedPeek_mono split: kind.splits)

lemma nodeUpdate_mono:
  "methods_le rec rec' \<Longrightarrow> refines (nodeUpdate rec this s) (nodeUpdate rec' this s)"
  by (simp add: nodeUpdate_def computedUpdate_mono effectUpdate_mono split: kind.splits)

lemma flushRun_mono:
  assumes "methods_le rec rec'"
  shows "refines (flushRun rec subs s) (flushRun rec' subs s)"
  by (induction subs arbitrary: s) (auto intro!: refines_bind nodeUpdate_mono[OF assms])

lemma flushBatchedUpdates_mono:
  "methods_le rec rec' \<Longrightarrow> refines (flushBatchedUpdates rec s) (flushBatchedUpdates rec' s)"
  by (simp add: flushBatchedUpdates_def flushRun_mono split: prod.splits)

lemma dispose_mono:
  "methods_le rec rec' \<Longrightarrow> refines (dispose rec this s) (dispose rec' this s)"
  by (auto simp: dispose_def intro!: refines_bind runCleanup_mono split: kind.splits)

lemma exec_mono_Suc: "methods_le (exec n) (exec (Suc n))"
proof (induction n)
  case 0
  show ?case by (simp add: methods_le_def)
next
  case (Suc n)
  show ?case
    unfolding methods_le_def
  proof (intro allI)
    fix c s
    show "refines (exec (Suc n) c s) (exec (Suc (Suc n)) c s)"
      by (cases c)
         (simp_all add: nodeGet_mono[OF Suc] nodePeek_mono[OF Suc] signalSet_mono[OF Suc]
            nodeUpdate_mono[OF Suc] flushBatchedUpdates_mono[OF Suc])
  qed
qed

lemma methods_le_trans: "methods_le a b \<Longrightarrow> methods_le b c \<Longrightarrow> methods_le a c"
  by (auto simp: methods_le_def refines_def) metis

lemma exec_mono: "n \<le> m \<Longrightarrow> methods_le (exec n) (exec m)"
proof (induction m)
  case 0
  then show ?case by (simp add: methods_le_def)
next
  case (Suc m)
  show ?case
  proof (cases "n = Suc m")
    case True
    then show ?thesis by (simp add: methods_le_def)
  next
    case False
    with Suc.prems have "n \<le> m" by simp
    from methods_le_trans[OF Suc.IH[OF this] exec_mono_Suc] show ?thesis .
  qed
qed

subsection \<open>The relation sets stay symmetric\<close>

lemma post_simps [simp]:
  "post P None" "post P (Some (Ok v s)) = P s" "post P (Some (Threw e s)) = P s"
  by (simp_all add: post_def)

lemma post_bind:
  assumes "post P m" and "\<And>v s. P s \<Longrightarrow> post P (f v s)"
  shows "post P (bind m f)"
proof (cases m)
  case None
  then show ?thesis by simp
next
  case (Some r)
  with assms show ?thesis by (cases r) simp_all
qed

lemma post_tryFinally:
  assumes "post P m" and "\<And>s. P s \<Longrightarrow> P (g s)"
  shows "post P (tryFinally m g)"
proof (cases m)
  case None
  then show ?thesis by simp
next
  case (Some r)
  with assms show ?thesis by (cases r) simp_all
qed

lemma methods_keepD: "methods_keep P rec \<Longrightarrow> P s \<Longrightarrow> post P (rec c s)"
  by (simp add: methods_keep_def)

lemma inv_nodes_eq: "nodes s' = nodes s \<Longrightarrow> inv K s' = inv K s"
  by (simp add: inv_def sym_def)

lemma nodes_upd: "nodes (upd i f s) x = (if x = i then f (nodes s i) else nodes s x)"
  by (simp add: upd_def)

lemma inv_upd_flags:
  assumes "inv K s"
    and "dependencies (f (nodes s i)) = dependencies (nodes s i)"
    and "subscribers (f (nodes s i)) = subscribers (nodes s i)"
    and "kind (f (nodes s i)) = kind (nodes s i)"
  shows "inv K (upd i f s)"
  using assms by (auto simp: inv_def sym_def nodes_upd)

lemma inv_track:
  assumes "inv K s" and "K this \<noteq> EffectK"
  shows "inv K (track this s)"
proof (cases "currentObserver s")
  case None
  with assms show ?thesis by (simp add: track_def)
next
  case (Some obs)
  show ?thesis
  proof (cases "obs = this")
    case True
    with Some assms show ?thesis by (simp add: track_def)
  next
    case False
    with Some assms show ?thesis
      by (auto simp: track_def inv_def sym_def nodes_upd set_add_def)
  qed
qed

lemma fold_unsub:
  "nodes (fold (\<lambda>dep s1. upd dep (\<lambda>nd. nd\<lparr>subscribers := removeAll this (subscribers nd)\<rparr>) s1) ds s) x
     = (if x \<in> set ds then (nodes s x)\<lparr>subscribers := removeAll this (subscribers (nodes s x))\<rparr>
        else nodes s x)"
  by (induction ds arbitrary: s) (auto simp: nodes_upd)

lemma clearDependencies_nodes:
  "subscribers (nodes (clearDependencies this s) x)
     = (if x \<in> set (dependencies (nodes s this)) then removeAll this (subscribers (nodes s x))
        else subscribers (nodes s x))"
  "dependencies (nodes (clearDependencies this s) x)
     = (if x = this then [] else dependencies (nodes s x))"
  "kind (nodes (clearDependencies this s) x) = kind (nodes s x)"
  by (simp_all add: clearDependencies_def nodes_upd fold_unsub)

lemma inv_clearDependencies:
  assumes "inv K s"
  shows "inv K (clearDependencies this s)"
proof -
  have "sym (clearDependencies this s)"
    unfolding sym_def
  proof (intro allI impI)
    fix a b
    assume b: "b \<in> set (dependencies (nodes (clearDependencies this s) a))"
    then have ne: "a \<noteq> this" and "b \<in> set (dependencies (nodes s a))"
      by (auto simp: clearDependencies_nodes split: if_splits)
    with assms have "a \<in> set (subscribers (nodes s b))" by (simp add: inv_def sym_def)
    with ne show "a \<in> set (subscribers (nodes (clearDependencies this s) b))"
      by (simp add: clearDependencies_nodes)
  qed
  with assms show ?thesis by (simp add: inv_def clearDependencies_nodes)
qed

lemma inv_markStale: "inv K s \<Longrightarrow> inv K (markStale this snapshot s)"
  unfolding markStale_def
  by (induction snapshot arbitrary: s) (simp_all add: inv_upd_flags)

lemma inv_collect_inner:
  "inv K (fst sp) \<Longrightarrow>
   inv K (fst (fold (\<lambda>sub (s1, pending).
            (upd sub (\<lambda>nd. nd\<lparr>stale := True\<rparr>) s1, set_add sub pending)) subs sp))"
  by (induction subs arbitrary: sp) (simp_all add: split_beta inv_upd_flags)

lemma inv_collect_outer:
  "inv K (fst sp) \<Longrightarrow>
   inv K (fst (fold (\<lambda>sig sp. fold (\<lambda>sub (s1, pending).
                             (upd sub (\<lambda>nd. nd\<lparr>stale := True\<rparr>) s1, set_add sub pending))
                          (subscribers (nodes (fst sp) sig)) sp) sigs sp))"
  by (induction sigs arbitrary: sp) (simp_all add: inv_collect_inner)

lemma inv_collectPending: "inv K s \<Longrightarrow> inv K (fst (collectPending s))"
  using inv_collect_outer[of K "(s, [])"] by (simp add: collectPending_def)


lemma inv_fields [simp]:
  "inv K (s\<lparr>calls := a\<rparr>) = inv K s"
  "inv K (s\<lparr>currentObserver := b\<rparr>) = inv K s"
  "inv K (s\<lparr>observerStack := c\<rparr>) = inv K s"
  "inv K (s\<lparr>batchDepth := d\<rparr>) = inv K s"
  "inv K (s\<lparr>batchedSignals := e\<rparr>) = inv K s"
  "inv K (enterObserver i s) = inv K s"
  "inv K (leaveObserver p s) = inv K s"
  by (simp_all add: inv_def sym_def enterObserver_def leaveObserver_def)

lemma batch_keeps:
  assumes rec: "methods_keep (inv K) rec" and f: "\<And>s. inv K s \<Longrightarrow> post (inv K) (f s)"
    and s: "inv K s"
  shows "post (inv K) (batch rec f s)"
proof (cases "f (s\<lparr>batchDepth := batchDepth s + 1\<rparr>)")
  case None
  then show ?thesis by (simp add: batch_def)
next
  case (Some r)
  from f[of "s\<lparr>batchDepth := batchDepth s + 1\<rparr>"] s Some
  have r: "post (inv K) (Some r)" by simp
  show ?thesis
  proof (cases r)
    case (Ok v s1)
    with r have "inv K s1" by simp
    with Some Ok show ?thesis
      by (auto simp: batch_def Let_def intro!: post_bind methods_keepD[OF rec])
  next
    case (Threw e s1)
    with r have "inv K s1" by simp
    with Some Threw show ?thesis
      by (auto simp: batch_def Let_def intro!: post_bind methods_keepD[OF rec])
  qed
qed

lemma untrack_keeps:
  assumes "\<And>s. inv K s \<Longrightarrow> post (inv K) (f s)" and "inv K s"
  shows "post (inv K) (untrack f s)"
  using assms by (auto simp: untrack_def intro!: post_tryFinally)

lemma eval_keeps:
  assumes rec: "methods_keep (inv K) rec"
  shows "inv K s \<Longrightarrow> post (inv K) (eval rec e s)"
proof (induction e arbitrary: s)
  case (BatchE e)
  then show ?case by (simp add: batch_keeps[OF rec])
next
  case (Untrack e)
  then show ?case by (simp add: untrack_keeps)
qed (auto intro!: post_bind methods_keepD[OF rec])

lemma notifyRun_keeps:
  assumes rec: "methods_keep (inv K) rec"
  shows "inv K s \<Longrightarrow> post (inv K) (notifyRun rec this subs s)"
  by (induction subs arbitrary: s) (auto intro!: post_bind methods_keepD[OF rec])

lemma notify_keeps:
  "methods_keep (inv K) rec \<Longrightarrow> inv K s \<Longrightarrow> post (inv K) (notify rec this s)"
  by (simp add: notify_def Let_def notifyRun_keeps inv_markStale)

lemma signalSet_keeps:
  "methods_keep (inv K) rec \<Longrightarrow> inv K s \<Longrightarrow> post (inv K) (signalSet rec this v s)"
  by (auto simp: signalSet_def Let_def intro!: notify_keeps inv_upd_flags)

lemma recompute_keeps:
  "methods_keep (inv K) rec \<Longrightarrow> inv K s \<Longrightarrow> post (inv K) (recompute rec this s)"
  by (auto simp: recompute_def Let_def
           intro!: post_tryFinally post_bind eval_keeps inv_clearDependencies inv_upd_flags)

lemma computedGet_keeps:
  assumes "methods_keep (inv K) rec" and "inv K s" and "K this \<noteq> EffectK"
  shows "post (inv K) (computedGet rec this s)"
  using assms
  by (auto simp: computedGet_def Let_def intro!: post_bind recompute_keeps inv_track)

lemma computedPeek_keeps:
  "methods_keep (inv K) rec \<Longrightarrow> inv K s \<Longrightarrow> post (inv K) (computedPeek rec this s)"
  by (auto simp: computedPeek_def intro!: post_bind recompute_keeps)

lemma computedUpdate_keeps:
  "methods_keep (inv K) rec \<Longrightarrow> inv K s \<Longrightarrow> post (inv K) (computedUpdate rec this s)"
  by (auto simp: computedUpdate_def intro!: post_bind recompute_keeps notify_keeps)

lemma runCleanup_keeps:
  "methods_keep (inv K) rec \<Longrightarrow> inv K s \<Longrightarrow> post (inv K) (runCleanup rec this s)"
  by (auto simp: runCleanup_def intro!: post_bind eval_keeps inv_upd_flags split: option.splits)

lemma effectRun_keeps:
  "methods_keep (inv K) rec \<Longrightarrow> inv K s \<Longrightarrow> post (inv K) (effectRun rec this s)"
  by (auto simp: effectRun_def Let_def
           intro!: post_tryFinally post_bind eval_keeps runCleanup_keeps inv_clearDependencies
                   inv_upd_flags)

lemma effectUpdate_keeps:
  "methods_keep (inv K) rec \<Longrightarrow> inv K s \<Longrightarrow> post (inv K) (effectUpdate rec this s)"
  by (simp add: effectUpdate_def effectRun_keeps)

lemma inv_kind: "inv K s \<Longrightarrow> kind (nodes s i) = K i"
  by (simp add: inv_def)

lemma nodeGet_keeps:
  assumes "methods_keep (inv K) rec" and "inv K s"
  shows "post (inv K) (nodeGet rec this s)"
proof (cases "kind (nodes s this)")
  case SignalK
  with assms(2) have "K this \<noteq> EffectK" by (simp add: inv_kind[symmetric])
  with SignalK assms(2) show ?thesis by (simp add: nodeGet_def signalGet_def Let_def inv_track)
next
  case ComputedK
  with assms(2) have "K this \<noteq> EffectK" by (simp add: inv_kind[symmetric])
  with ComputedK assms show ?thesis by (simp add: nodeGet_def computedGet_keeps)
next
  case EffectK
  with assms(2) show ?thesis by (simp add: nodeGet_def)
qed

lemma nodePeek_keeps:
  "methods_keep (inv K) rec \<Longrightarrow> inv K s \<Longrightarrow> post (inv K) (nodePeek rec this s)"
  by (simp add: nodePeek_def computedPeek_keeps split: kind.splits)

lemma nodeUpdate_keeps:
  "methods_keep (inv K) rec \<Longrightarrow> inv K s \<Longrightarrow> post (inv K) (nodeUpdate rec this s)"
  by (simp add: nodeUpdate_def computedUpdate_keeps effectUpdate_keeps split: kind.splits)

lemma flushRun_keeps:
  assumes rec: "methods_keep (inv K) rec"
  shows "inv K s \<Longrightarrow> post (inv K) (flushRun rec subs s)"
  by (induction subs arbitrary: s) (auto intro!: post_bind nodeUpdate_keeps[OF rec])

lemma flushBatchedUpdates_keeps:
  assumes "methods_keep (inv K) rec" and "inv K s"
  shows "post (inv K) (flushBatchedUpdates rec s)"
proof -
  obtain s1 pending where c: "collectPending s = (s1, pending)" by (cases "collectPending s")
  with inv_collectPending[OF assms(2)] have "inv K s1" by simp
  with c assms(1) show ?thesis
    using assms(2) by (simp add: flushBatchedUpdates_def flushRun_keeps)
qed

lemma exec_keeps: "methods_keep (inv K) (exec n)"
proof (induction n)
  case 0
  show ?case by (simp add: methods_keep_def)
next
  case (Suc n)
  show ?case
    unfolding methods_keep_def
  proof (intro allI impI)
    fix c s
    assume "inv K s"
    then show "post (inv K) (exec (Suc n) c s)"
      by (cases c)
         (simp_all add: nodeGet_keeps[OF Suc] nodePeek_keeps[OF Suc] signalSet_keeps[OF Suc]
            nodeUpdate_keeps[OF Suc] flushBatchedUpdates_keeps[OF Suc])
  qed
qed

lemma inv_baseDispose:
  assumes "inv K s" and "subscribers (nodes s this) = []"
  shows "inv K (baseDispose this s)"
proof -
  from assms(1) have c: "inv K (clearDependencies this s)" by (rule inv_clearDependencies)
  from assms(2) have "subscribers (nodes (clearDependencies this s) this) = []"
    by (simp add: clearDependencies_nodes)
  with c show ?thesis
    unfolding baseDispose_def by (intro inv_upd_flags) simp_all
qed

lemma inv_effect_no_subscribers: "inv K s \<Longrightarrow> kind (nodes s i) = EffectK \<Longrightarrow> subscribers (nodes s i) = []"
  by (simp add: inv_def)

lemma dispose_keeps:
  assumes rec: "methods_keep (inv K) rec" and s: "inv K s"
    and ok: "kind (nodes s this) = EffectK \<or> subscribers (nodes s this) = []"
  shows "post (inv K) (dispose rec this s)"
proof (cases "kind (nodes s this)")
  case SignalK
  with ok s show ?thesis by (simp add: dispose_def inv_baseDispose)
next
  case ComputedK
  with ok have e: "subscribers (nodes s this) = []" by simp
  let ?s1 = "upd this (\<lambda>nd. nd\<lparr>computedFlag := False, stale := True\<rparr>) s"
  from s have "inv K ?s1" by (intro inv_upd_flags) simp_all
  moreover from e have "subscribers (nodes ?s1 this) = []" by (simp add: nodes_upd)
  ultimately show ?thesis using ComputedK by (simp add: dispose_def inv_baseDispose)
next
  case EffectK
  with s have k: "K this = EffectK" by (simp add: inv_kind[symmetric])
  let ?s1 = "upd this (\<lambda>nd. nd\<lparr>disposed := True\<rparr>) s"
  from s have s1: "inv K ?s1" by (intro inv_upd_flags) simp_all
  have "post (inv K) (bind (runCleanup rec this ?s1) (\<lambda>_ s2. Some (Ok Undefined (baseDispose this s2))))"
  proof (rule post_bind[OF runCleanup_keeps[OF rec s1]])
    fix v s2 assume s2: "inv K s2"
    with k have "subscribers (nodes s2 this) = []" by (simp add: inv_def)
    with s2 show "post (inv K) (Some (Ok Undefined (baseDispose this s2)))"
      by (simp add: inv_baseDispose)
  qed
  with EffectK s show ?thesis by (simp add: dispose_def)
qed

lemma wellFormed_inv: "wellFormed s = inv (\<lambda>i. kind (nodes s i)) s"
  by (simp add: wellFormed_def inv_def)

lemma inv_wellFormed: "inv K s \<Longrightarrow> wellFormed s"
  by (simp add: wellFormed_def inv_def)

lemma post_mono: "post P m \<Longrightarrow> (\<And>s. P s \<Longrightarrow> Q s) \<Longrightarrow> post Q m"
  by (auto simp: post_def split: option.splits outcome.splits)

lemmas reactive_defs = signal_def computed_def effect_def newNode_def emptyGraph_def
  effectRun_def runCleanup_def clearDependencies_def enterObserver_def leaveObserver_def
  nodeGet_def nodePeek_def nodeUpdate_def signalGet_def signalSet_def computedGet_def
  computedPeek_def computedUpdate_def effectUpdate_def recompute_def track_def upd_def
  notify_def markStale_def batch_def untrack_def flushBatchedUpdates_def collectPending_def
  dispose_def baseDispose_def set_add_def Object_is_def stateAfter_def Let_def

lemmas diamond_defs = diamondNodes_def diamond_def diamondSet_def diamondInBatch_def
  diamondNested_def

lemma diamond_at_3:
  "snd (effect (exec 3) (Seq (Get 3) (Spy 0)) None diamondNodes) = Some (Ok Undefined diamond)"
  "calls diamond = [0]"
  by (simp_all add: diamond_defs reactive_defs eval_nat_numeral)

lemma diamondSet_at_4:
  "batch (exec 4) (eval (exec 4) (SetSig 0 (Const (Num 2)))) diamond = Some (Ok Undefined diamondSet)"
  "calls diamondSet = [0, 0]"
  "nvalue (nodes diamondSet 3) = Num 7"
  "batchDepth diamondSet = 0 \<and> batchedSignals diamondSet = []"
  by (simp_all add: diamond_defs reactive_defs eval_nat_numeral)

lemma diamondInBatch_at_1:
  "eval (exec 1) (SetSig 0 (Const (Num 2))) (diamond\<lparr>batchDepth := 1\<rparr>)
     = Some (Ok Undefined diamondInBatch)"
  "calls diamondInBatch = [0]"
  "batchedSignals diamondInBatch = [0]"
  "nvalue (nodes diamondInBatch 3) = Num 4"
  by (simp_all add: diamond_defs reactive_defs eval_nat_numeral)

lemma diamondNested_at_4:
  "batch (exec 4) (eval (exec 4) (Seq (BatchE (SetSig 0 (Const (Num 2)))) (Spy 1))) diamond
     = Some (Ok Undefined diamondNested)"
  "calls diamondNested = [0, 1, 0]"
  by (simp_all add: diamond_defs reactive_defs eval_nat_numeral)


subsection \<open>Scenarios\<close>

lemma at_least:
  assumes "refines m m'" and "m = Some r"
  shows "m' = Some r"
  using assms by (rule refines_Some)

text \<open>
  C1. Glitch-free batching on the diamond. Creating the effect runs it once (spy 0 was
  called once). \<open>batch(() => { s.set(2) })\<close> then returns with spy 0 called exactly twice
  in all, \<open>d\<close> holding \<open>2 * 2 + (2 + 1) = 7\<close>, the batch depth back at zero and no
  batched signal left. Inside the batch, right after \<open>s.set(2)\<close>, the effect has not run:
  the signal is only recorded as batched and \<open>d\<close> still holds 4. When that batch is
  nested in an outer one that calls spy 1 after it, the calls are spy 0, spy 1, spy 0:
  the flush happened when the outer batch ended, not the inner. All of this for every
  bound on the nesting depth of at least 4.
\<close>

theorem glitch_free_batch:
  "4 \<le> n \<longrightarrow>
     snd (effect (exec n) (Seq (Get 3) (Spy 0)) None diamondNodes) = Some (Ok Undefined diamond)
   \<and> calls diamond = [0]
   \<and> batch (exec n) (eval (exec n) (SetSig 0 (Const (Num 2)))) diamond
       = Some (Ok Undefined diamondSet)
   \<and> calls diamondSet = [0, 0]
   \<and> nvalue (nodes diamondSet 3) = Num 7
   \<and> batchDepth diamondSet = 0 \<and> batchedSignals diamondSet = []
   \<and> eval (exec n) (SetSig 0 (Const (Num 2))) (diamond\<lparr>batchDepth := 1\<rparr>)
       = Some (Ok Undefined diamondInBatch)
   \<and> calls diamondInBatch = [0]
   \<and> batchedSignals diamondInBatch = [0]
   \<and> nvalue (nodes diamondInBatch 3) = Num 4
   \<and> batch (exec n) (eval (exec n) (Seq (BatchE (SetSig 0 (Const (Num 2)))) (Spy 1))) diamond
       = Some (Ok Undefined diamondNested)
   \<and> calls diamondNested = [0, 1, 0]"
proof
  assume n: "4 \<le> n"
  then have le3: "methods_le (exec 3) (exec n)" and le4: "methods_le (exec 4) (exec n)"
    and le1: "methods_le (exec 1) (exec n)"
    by (simp_all add: exec_mono)
  have a: "snd (effect (exec n) (Seq (Get 3) (Spy 0)) None diamondNodes)
           = Some (Ok Undefined diamond)"
  proof -
    obtain i g where nn: "newNode EffectK Undefined (Seq (Get 3) (Spy 0)) None diamondNodes = (i, g)"
      by (cases "newNode EffectK Undefined (Seq (Get 3) (Spy 0)) None diamondNodes")
    with diamond_at_3(1) have "effectRun (exec 3) i g = Some (Ok Undefined diamond)"
      by (simp add: effect_def)
    from at_least[OF effectRun_mono[OF le3] this] nn show ?thesis by (simp add: effect_def)
  qed
  have b: "batch (exec n) (eval (exec n) (SetSig 0 (Const (Num 2)))) diamond
           = Some (Ok Undefined diamondSet)"
    by (rule at_least[OF batch_mono[OF le4 eval_mono[OF le4]] diamondSet_at_4(1)])
  have c: "eval (exec n) (SetSig 0 (Const (Num 2))) (diamond\<lparr>batchDepth := 1\<rparr>)
           = Some (Ok Undefined diamondInBatch)"
    by (rule at_least[OF eval_mono[OF le1] diamondInBatch_at_1(1)])
  have d: "batch (exec n) (eval (exec n) (Seq (BatchE (SetSig 0 (Const (Num 2)))) (Spy 1))) diamond
           = Some (Ok Undefined diamondNested)"
    by (rule at_least[OF batch_mono[OF le4 eval_mono[OF le4]] diamondNested_at_4(1)])
  from a b c d show "snd (effect (exec n) (Seq (Get 3) (Spy 0)) None diamondNodes) = Some (Ok Undefined diamond)
   \<and> calls diamond = [0]
   \<and> batch (exec n) (eval (exec n) (SetSig 0 (Const (Num 2)))) diamond
       = Some (Ok Undefined diamondSet)
   \<and> calls diamondSet = [0, 0]
   \<and> nvalue (nodes diamondSet 3) = Num 7
   \<and> batchDepth diamondSet = 0 \<and> batchedSignals diamondSet = []
   \<and> eval (exec n) (SetSig 0 (Const (Num 2))) (diamond\<lparr>batchDepth := 1\<rparr>)
       = Some (Ok Undefined diamondInBatch)
   \<and> calls diamondInBatch = [0]
   \<and> batchedSignals diamondInBatch = [0]
   \<and> nvalue (nodes diamondInBatch 3) = Num 4
   \<and> batch (exec n) (eval (exec n) (Seq (BatchE (SetSig 0 (Const (Num 2)))) (Spy 1))) diamond
       = Some (Ok Undefined diamondNested)
   \<and> calls diamondNested = [0, 1, 0]"
    by (simp add: diamond_at_3(2) diamondSet_at_4(2-4) diamondInBatch_at_1(2-4) diamondNested_at_4(2))
qed

theorem glitch_free_batch_witness:
  "(4::nat) \<le> 10
   \<and> batch (exec 10) (eval (exec 10) (SetSig 0 (Const (Num 2)))) diamond
       = Some (Ok Undefined diamondSet)
   \<and> calls diamond = [0] \<and> calls diamondSet = [0, 0]"
  using glitch_free_batch[of 10] by simp

lemmas watched_defs = watchedNodes_def watched_def

lemma watched_built:
  "snd (effect (exec 2) (Seq (Get 0) (Spy 0)) None (watchedNodes v)) = Some (Ok Undefined (watched v))"
  "calls (watched v) = [0]"
  "nvalue (nodes (watched v) 0) = v"
  "subscribers (nodes (watched v) 0) = [1]"
  by (simp_all add: watched_defs reactive_defs eval_nat_numeral)

lemma watched_changed:
  "calls (stateAfter (exec 3 (CSet 0 (Num 6)) (watched (Num 5))) emptyGraph) = [0, 0]"
  "exec 3 (CSet 0 (Num 6)) (watched (Num 5)) \<noteq> None"
  by (simp_all add: watched_defs reactive_defs eval_nat_numeral)

lemma signalSet_same:
  "Object_is (nvalue (nodes s i)) v \<Longrightarrow> signalSet rec i v s = Some (Ok Undefined s)"
  by (simp add: signalSet_def)

text \<open>
  C9. Write idempotence. \<open>s.set(v)\<close> with \<open>v\<close> equal to the held value under \<open>Object.is\<close>
  returns at once and leaves the whole state as it was: no node is marked stale, nothing
  is batched, no effect runs. For a signal holding 5 with an effect reading it, the
  effect has run once at creation and \<open>s.set(5)\<close> changes nothing; for a signal holding
  \<open>NaN\<close>, neither does \<open>s.set(NaN)\<close>, however often repeated. (A write of a different
  value, 6, does run the effect a second time.)
\<close>

theorem write_idempotence:
  "(Object_is (nvalue (nodes s i)) v \<longrightarrow>
      signalSet rec i v s = Some (Ok Undefined s)
    \<and> exec (Suc n) (CSet i v) s = Some (Ok Undefined s))
   \<and> calls (watched (Num 5)) = [0]
   \<and> exec (Suc n) (CSet 0 (Num 5)) (watched (Num 5)) = Some (Ok Undefined (watched (Num 5)))
   \<and> calls (watched NaN) = [0]
   \<and> exec (Suc n) (CSet 0 NaN) (watched NaN) = Some (Ok Undefined (watched NaN))
   \<and> bind (exec (Suc n) (CSet 0 NaN) (watched NaN)) (\<lambda>_ g. exec (Suc n) (CSet 0 NaN) g)
       = Some (Ok Undefined (watched NaN))
   \<and> calls (stateAfter (exec 3 (CSet 0 (Num 6)) (watched (Num 5))) emptyGraph) = [0, 0]"
proof -
  have same: "exec (Suc n) (CSet 0 w) (watched w) = Some (Ok Undefined (watched w))" for w
    by (simp add: signalSet_same Object_is_def watched_built(3))
  have twice: "bind (exec (Suc n) (CSet 0 NaN) (watched NaN)) (\<lambda>_ g. exec (Suc n) (CSet 0 NaN) g)
       = Some (Ok Undefined (watched NaN))"
    by (simp only: same bind.simps)
  have gen: "Object_is (nvalue (nodes s i)) v \<longrightarrow>
      signalSet rec i v s = Some (Ok Undefined s)
    \<and> exec (Suc n) (CSet i v) s = Some (Ok Undefined s)"
    by (simp add: signalSet_same)
  from gen same[of "Num 5"] same[of NaN] twice watched_built(2)[of "Num 5"] watched_built(2)[of NaN]
    watched_changed(1)
  show ?thesis by (intro conjI)
qed

theorem write_idempotence_witness:
  "Object_is (nvalue (nodes (watched (Num 5)) 0)) (Num 5)
   \<and> exec 1 (CSet 0 (Num 5)) (watched (Num 5)) = Some (Ok Undefined (watched (Num 5)))
   \<and> Object_is (nvalue (nodes (watched NaN) 0)) NaN
   \<and> exec 1 (CSet 0 NaN) (watched NaN) = Some (Ok Undefined (watched NaN))"
proof -
  have a: "Object_is (nvalue (nodes (watched (Num 5)) 0)) (Num 5)"
    and b: "Object_is (nvalue (nodes (watched NaN) 0)) NaN"
    by (simp_all add: Object_is_def watched_built(3))
  from write_idempotence[where s = "watched (Num 5)" and i = 0 and v = "Num 5" and n = 0]
    write_idempotence[where s = "watched NaN" and i = 0 and v = NaN and n = 0] a b
  show ?thesis by simp
qed

lemmas chain_defs = chainNodes_def chain_def chainDisposed_def

lemma chain_built:
  "snd (effect (exec 3) (Seq (Get 1) (Spy 0)) None chainNodes) = Some (Ok Undefined chain)"
  "dependencies (nodes chain 2) = [1]" "subscribers (nodes chain 1) = [2]"
  "kind (nodes chain 1) = ComputedK"
  by (simp_all add: chain_defs reactive_defs eval_nat_numeral)

lemma chain_nodes:
  "nodes chain =
     (nodes emptyGraph)
       (0 := \<lparr>kind = SignalK, subscribers = [1], dependencies = [], stale = False, nvalue = Num 1,
              computedFlag = False, body = Const Undefined, returnsCleanup = None, cleanup = None,
              disposed = False\<rparr>,
        1 := \<lparr>kind = ComputedK, subscribers = [2], dependencies = [0], stale = False,
              nvalue = Num 2, computedFlag = True, body = Mul (Get 0) (Const (Num 2)),
              returnsCleanup = None, cleanup = None, disposed = False\<rparr>,
        2 := \<lparr>kind = EffectK, subscribers = [], dependencies = [1], stale = False,
              nvalue = Undefined, computedFlag = False, body = Seq (Get 1) (Spy 0),
              returnsCleanup = None, cleanup = None, disposed = False\<rparr>)"
  by (simp add: chain_defs reactive_defs eval_nat_numeral fun_eq_iff)

lemma chain_wellFormed: "wellFormed chain"
  by (simp add: wellFormed_def sym_def chain_nodes emptyGraph_def)

text \<open>
  C8 fails as stated: in a graph whose relation sets are symmetric, with an effect (node 2)
  reading a computed (node 1), disposing the computed empties its subscriber set, but the
  effect still has the computed in its dependency set.
\<close>

theorem dispose_breaks_symmetry:
  "sym chain
   \<and> dispose (exec 3) 1 chain = Some (Ok Undefined chainDisposed)
   \<and> 1 \<in> set (dependencies (nodes chainDisposed 2))
   \<and> 2 \<notin> set (subscribers (nodes chainDisposed 1))
   \<and> \<not> sym chainDisposed"
proof -
  have s: "sym chain" using chain_wellFormed by (simp add: wellFormed_def)
  have d: "dispose (exec 3) 1 chain = Some (Ok Undefined chainDisposed)"
    "1 \<in> set (dependencies (nodes chainDisposed 2))"
    "2 \<notin> set (subscribers (nodes chainDisposed 1))"
    by (simp_all add: chain_defs reactive_defs eval_nat_numeral)
  from d(2,3) have "\<not> sym chainDisposed" by (auto simp: sym_def)
  with s d show ?thesis by simp
qed

text \<open>
  C8, amended. Call a graph well formed when its relation sets are symmetric (whenever
  \<open>A\<close>'s dependencies contain \<open>B\<close>, \<open>B\<close>'s subscribers contain \<open>A\<close>) and nothing subscribes
  to an effect. A well-formed graph is well formed again after every call of \<open>get\<close>,
  \<open>peek\<close>, \<open>set\<close>, \<open>update\<close> and the batch flush, after a recomputation of a computed,
  a run of an effect, a batch and any user function, whether the call returns or throws;
  and after \<open>dispose\<close> of an effect, or of a signal or computed that has no subscribers
  at that moment.
\<close>

theorem symmetry_preserved:
  "wellFormed s \<longrightarrow>
     post wellFormed (exec n c s)
   \<and> post wellFormed (recompute (exec n) i s)
   \<and> post wellFormed (effectRun (exec n) i s)
   \<and> post wellFormed (eval (exec n) e s)
   \<and> post wellFormed (batch (exec n) (eval (exec n) e) s)
   \<and> (kind (nodes s i) = EffectK \<or> subscribers (nodes s i) = [] \<longrightarrow>
        post wellFormed (dispose (exec n) i s))"
proof (intro impI)
  assume "wellFormed s"
  then have i: "inv (\<lambda>i. kind (nodes s i)) s" by (simp add: wellFormed_inv)
  let ?K = "\<lambda>i. kind (nodes s i)"
  note k = exec_keeps[of ?K n]
  have w: "post (inv ?K) m \<Longrightarrow> post wellFormed m" for m
    by (erule post_mono) (rule inv_wellFormed)
  have "post wellFormed (exec n c s)" by (rule w[OF methods_keepD[OF k i]])
  moreover have "post wellFormed (recompute (exec n) i s)" by (rule w[OF recompute_keeps[OF k i]])
  moreover have "post wellFormed (effectRun (exec n) i s)" by (rule w[OF effectRun_keeps[OF k i]])
  moreover have "post wellFormed (eval (exec n) e s)" by (rule w[OF eval_keeps[OF k i]])
  moreover have "post wellFormed (batch (exec n) (eval (exec n) e) s)"
    by (rule w[OF batch_keeps[OF k eval_keeps[OF k] i]])
  moreover have "post wellFormed (dispose (exec n) i s)"
    if "kind (nodes s i) = EffectK \<or> subscribers (nodes s i) = []"
    by (rule w[OF dispose_keeps[OF k i that]])
  ultimately show "post wellFormed (exec n c s)
   \<and> post wellFormed (recompute (exec n) i s)
   \<and> post wellFormed (effectRun (exec n) i s)
   \<and> post wellFormed (eval (exec n) e s)
   \<and> post wellFormed (batch (exec n) (eval (exec n) e) s)
   \<and> (kind (nodes s i) = EffectK \<or> subscribers (nodes s i) = [] \<longrightarrow>
        post wellFormed (dispose (exec n) i s))" by simp
qed

lemma chain_set:
  "exec 4 (CSet 0 (Num 5)) chain \<noteq> None"
  "calls (stateAfter (exec 4 (CSet 0 (Num 5)) chain) emptyGraph) = [0, 0]"
  "dispose (exec 4) 2 chain \<noteq> None"
  by (simp_all add: chain_defs reactive_defs eval_nat_numeral)

theorem symmetry_preserved_witness:
  "wellFormed chain
   \<and> exec 4 (CSet 0 (Num 5)) chain \<noteq> None
   \<and> post wellFormed (exec 4 (CSet 0 (Num 5)) chain)
   \<and> kind (nodes chain 2) = EffectK
   \<and> dispose (exec 4) 2 chain \<noteq> None
   \<and> post wellFormed (dispose (exec 4) 2 chain)"
proof -
  have k: "kind (nodes chain 2) = EffectK" by (simp add: chain_nodes)
  from symmetry_preserved[where s = chain and n = 4 and c = "CSet 0 (Num 5)" and i = 2]
    chain_wellFormed k chain_set(1,3)
  show ?thesis by simp
qed

end
